theory Spec2Isabelle
  imports Main "HOL-Library.Word" "HOL-Library.Signed_Division"
begin

unbundle bit_operations_syntax

section \<open>The Win32 thread back-end (src/win32/thread.c)\<close>

text \<open>
  Pointers and handles are natural numbers, with \<open>0\<close> for \<open>NULL\<close>. Calls into the
  operating system that have no result of interest are recorded, in program order, as
  events. An \<open>assert\<close> that fails, \<open>abort ()\<close> and a dereference of \<open>NULL\<close> are
  values of type \<open>failure\<close>.
\<close>

type_synonym addr = nat

definition NULL :: addr where
  "NULL = 0"

datatype failure = AssertionFailed | Aborted | NullDereference

subsection \<open>Thread records\<close>

text \<open>
  \<open>vlc_cleanup_t\<close>: a handler and its argument. The \<open>next\<close> links of the stack of
  handlers are the tail of a list, whose head is \<open>th->cleaners\<close>.
\<close>

record vlc_cleanup =
  proc :: addr
  cl_data :: addr

text \<open>
  \<open>struct vlc_thread\<close>. \<open>th_id\<close> is the native handle (\<open>NULL\<close> for a detached
  thread), \<open>wait_addr\<close> is \<open>wait.addr\<close>; the critical section \<open>wait.lock\<close> shows
  in the events only.
\<close>

record vlc_thread =
  th_id :: addr
  killable :: bool
  killed :: bool
  cleaners :: "vlc_cleanup list"
  th_entry :: addr
  th_data :: addr
  wait_addr :: addr

datatype event =
    AtomicStoreKilled
  | EnterWaitLock
  | LeaveWaitLock
  | AtomicFetchAnd addr "32 word"
  | WakeByAddressAll addr
  | QueueUserAPC addr
  | CleanupProc addr addr
  | ThreadDestroy
  | EndThread

text \<open>How a call that may end the calling thread comes back.\<close>

datatype control = Continue | Terminated

subsection \<open>Cancellation\<close>

text \<open>
  \<open>vlc_cancel\<close> acts on the record of another thread and on the watched word.
  \<open>interruptible\<close> is the build-time constant \<open>IS_INTERRUPTIBLE\<close>; the constant
  \<open>-2\<close> is the mask of the source.
\<close>

definition vlc_cancel ::
  "bool \<Rightarrow> vlc_thread \<Rightarrow> (addr \<Rightarrow> 32 word) \<Rightarrow> vlc_thread \<times> (addr \<Rightarrow> 32 word) \<times> event list" where
  "vlc_cancel interruptible th mem =
     (let th1 = th\<lparr>killed := True\<rparr>;
          a = wait_addr th1;
          (mem1, woken) =
             (if a = NULL then (mem, [])
              else (mem(a := mem a AND (- 2)), [AtomicFetchAnd a (- 2), WakeByAddressAll a]))
      in (th1, mem1,
          [AtomicStoreKilled, EnterWaitLock] @ woken @ [LeaveWaitLock]
          @ (if interruptible then [QueueUserAPC (th_id th1)] else [])))"

text \<open>
  The functions below act on the calling thread: \<open>self\<close> is what
  \<open>vlc_thread_self ()\<close> returns, \<open>None\<close> for \<open>NULL\<close>.
\<close>

definition vlc_savecancel :: "vlc_thread option \<Rightarrow> int \<times> vlc_thread option" where
  "vlc_savecancel self =
     (case self of
        None \<Rightarrow> (0, None)
      | Some th \<Rightarrow> ((if killable th then 1 else 0), Some (th\<lparr>killable := False\<rparr>)))"

definition vlc_restorecancel :: "int \<Rightarrow> vlc_thread option \<Rightarrow> failure + vlc_thread option" where
  "vlc_restorecancel state self =
     (if state = 0 \<or> state = 1 then
        (case self of
           None \<Rightarrow> Inr None
         | Some th \<Rightarrow>
             if killable th then Inl AssertionFailed
             else Inr (Some (th\<lparr>killable := (if state = 0 then False else True)\<rparr>)))
      else Inl AssertionFailed)"

text \<open>
  \<open>vlc_testcancel\<close>. The result is how the call comes back, the record afterwards
  (\<open>None\<close> once \<open>vlc_thread_destroy\<close> has freed it) and the events.
\<close>

definition vlc_testcancel :: "vlc_thread option \<Rightarrow> control \<times> vlc_thread option \<times> event list" where
  "vlc_testcancel self =
     (case self of
        None \<Rightarrow> (Continue, None, [])
      | Some th \<Rightarrow>
          if \<not> killable th then (Continue, Some th, [])
          else if \<not> killed th then (Continue, Some th, [])
          else
            (let th1 = th\<lparr>killable := True\<rparr>;
                 calls = map (\<lambda>p. CleanupProc (proc p) (cl_data p)) (cleaners th1);
                 th2 = th1\<lparr>th_data := NULL\<rparr>
             in if th_id th2 = NULL
                then (Terminated, None, calls @ [ThreadDestroy, EndThread])
                else (Terminated, Some th2, calls @ [EndThread])))"

text \<open>
  The commands of \<open>vlc_control_cancel\<close> with their argument. The \<open>switch\<close> has no
  default case: any other command number changes nothing.
\<close>

datatype cancel_cmd =
    VLC_CLEANUP_PUSH vlc_cleanup
  | VLC_CLEANUP_POP
  | VLC_CANCEL_ADDR_SET addr
  | VLC_CANCEL_ADDR_CLEAR addr
  | OTHER_COMMAND int

definition vlc_control_cancel ::
  "cancel_cmd \<Rightarrow> vlc_thread option \<Rightarrow> failure + (vlc_thread option \<times> event list)" where
  "vlc_control_cancel cmd self =
     (case self of
        None \<Rightarrow> Inr (None, [])
      | Some th \<Rightarrow>
          (case cmd of
             VLC_CLEANUP_PUSH cleaner \<Rightarrow> Inr (Some (th\<lparr>cleaners := cleaner # cleaners th\<rparr>), [])
           | VLC_CLEANUP_POP \<Rightarrow>
               (case cleaners th of
                  [] \<Rightarrow> Inl NullDereference
                | c # cs \<Rightarrow> Inr (Some (th\<lparr>cleaners := cs\<rparr>), []))
           | VLC_CANCEL_ADDR_SET a \<Rightarrow>
               Inr (Some (th\<lparr>wait_addr := a\<rparr>), [EnterWaitLock, LeaveWaitLock])
           | VLC_CANCEL_ADDR_CLEAR a \<Rightarrow>
               if wait_addr th = a
               then Inr (Some (th\<lparr>wait_addr := NULL\<rparr>), [EnterWaitLock, LeaveWaitLock])
               else Inl AssertionFailed
           | OTHER_COMMAND n \<Rightarrow> Inr (Some th, [])))"

subsection \<open>Static mutexes\<close>

text \<open>
  \<open>vlc_mutex_t\<close>: the fields of the static variant. The critical section of a
  dynamic mutex belongs to the operating system.
\<close>

record vlc_mutex =
  dynamic :: bool
  locked :: bool
  contention :: nat

datatype lock_outcome =
    Acquired vlc_mutex "vlc_thread option" "event list"
  | Cancelled "vlc_thread option" "event list"
  | Blocked
  | Failed failure

text \<open>
  Modelled from the spec: \<open>vlc_cond_wait\<close>, which \<open>vlc_mutex_lock\<close> calls and
  which is defined outside src/win32/thread.c. The spec makes every blocking wait a
  cancellation point that checks for cancellation before sleeping and again after waking,
  and names \<open>testCancel\<close> as the only place where cancellation takes effect. So one
  wait is \<open>vlc_testcancel\<close>, the sleep, and \<open>vlc_testcancel\<close> again. While the
  thread sleeps another thread may call \<open>vlc_cancel\<close> on it, which sets \<open>killed\<close>:
  \<open>kill\<close> says whether that happened.
\<close>

definition vlc_cond_wait ::
  "bool \<Rightarrow> vlc_thread option \<Rightarrow> control \<times> vlc_thread option \<times> event list" where
  "vlc_cond_wait kill self =
     (case vlc_testcancel self of
        (Terminated, s, ev) \<Rightarrow> (Terminated, s, ev)
      | (Continue, s, ev) \<Rightarrow>
          (case vlc_testcancel (if kill then map_option (\<lambda>th. th\<lparr>killed := True\<rparr>) s else s) of
             (c, s', ev') \<Rightarrow> (c, s', ev @ ev')))"

text \<open>
  The wait loop of \<open>vlc_mutex_lock\<close> for a static mutex. \<open>super_mutex\<close> is a
  dynamic mutex, so that the assertion on it holds and taking and releasing it are calls
  into the operating system, as is taking a dynamic mutex. The other threads are a
  schedule: one entry for every wake-up of the caller, saying whether a cancellation
  request arrived during the sleep and what \<open>p_mutex->locked\<close> holds at the wake-up.
  When the schedule ends with the mutex still held the caller stays blocked.
\<close>

fun static_wait_loop ::
  "vlc_mutex \<Rightarrow> vlc_thread option \<Rightarrow> event list \<Rightarrow> (bool \<times> bool) list \<Rightarrow> lock_outcome" where
  "static_wait_loop m self evs env =
     (if locked m then
        (case env of
           [] \<Rightarrow> Blocked
         | (kill, l) # rest \<Rightarrow>
             (let m1 = m\<lparr>contention := contention m + 1\<rparr>
              in case vlc_cond_wait kill self of
                   (Terminated, s, ev) \<Rightarrow> Cancelled s (evs @ ev)
                 | (Continue, s, ev) \<Rightarrow>
                     static_wait_loop (m1\<lparr>locked := l, contention := contention m1 - 1\<rparr>)
                       s (evs @ ev) rest))
      else Acquired m self evs)"

declare static_wait_loop.simps [simp del]

definition vlc_mutex_lock ::
  "vlc_mutex \<Rightarrow> vlc_thread option \<Rightarrow> (bool \<times> bool) list \<Rightarrow> lock_outcome" where
  "vlc_mutex_lock m self env =
     (if \<not> dynamic m then
        (case vlc_savecancel self of
           (canc, self1) \<Rightarrow>
             (case static_wait_loop m self1 [] env of
                Acquired m1 self2 evs \<Rightarrow>
                  (case vlc_restorecancel canc self2 of
                     Inl f \<Rightarrow> Failed f
                   | Inr self3 \<Rightarrow> Acquired (m1\<lparr>locked := True\<rparr>) self3 evs)
              | out \<Rightarrow> out))
      else Acquired m self [])"

text \<open>
  The record of a thread after cancellation requests that may have arrived (\<open>k\<close>),
  and the threads on which \<open>vlc_testcancel\<close> cannot act.
\<close>

definition pending :: "bool \<Rightarrow> vlc_thread option \<Rightarrow> vlc_thread option" where
  "pending k self = map_option (\<lambda>th. th\<lparr>killed := (killed th \<or> k)\<rparr>) self"

definition unkillable :: "vlc_thread option \<Rightarrow> bool" where
  "unkillable self = (case self of None \<Rightarrow> True | Some th \<Rightarrow> \<not> killable th)"

subsection \<open>Address waits\<close>

text \<open>
  Memory is bytes, little-endian. \<open>load_sized\<close> is the \<open>switch (size)\<close> of
  \<open>WaitOnAddressFallback\<close>: the object of 1, 2, 4 or 8 bytes at an address, converted
  from its signed type to \<open>uint64_t\<close>; any other size reaches
  \<open>vlc_assert_unreachable ()\<close>. \<open>SleepConditionVariableCS\<close> belongs to the operating
  system: \<open>sleep bucket ms\<close> is what it returns.
\<close>

datatype wait_event =
    EnterCriticalSection nat
  | SleepConditionVariableCS nat nat
  | LeaveCriticalSection nat

definition wait_addr_get_bucket :: "addr \<Rightarrow> nat" where
  "wait_addr_get_bucket a = drop_bit 3 a mod 32"

definition load8 :: "(addr \<Rightarrow> 8 word) \<Rightarrow> addr \<Rightarrow> 8 word" where
  "load8 mem a = mem a"

definition load16 :: "(addr \<Rightarrow> 8 word) \<Rightarrow> addr \<Rightarrow> 16 word" where
  "load16 mem a = word_cat (mem (a + 1)) (mem a)"

definition load32 :: "(addr \<Rightarrow> 8 word) \<Rightarrow> addr \<Rightarrow> 32 word" where
  "load32 mem a = word_cat (load16 mem (a + 2)) (load16 mem a)"

definition load64 :: "(addr \<Rightarrow> 8 word) \<Rightarrow> addr \<Rightarrow> 64 word" where
  "load64 mem a = word_cat (load32 mem (a + 4)) (load32 mem a)"

definition load_sized :: "nat \<Rightarrow> (addr \<Rightarrow> 8 word) \<Rightarrow> addr \<Rightarrow> 64 word option" where
  "load_sized sz mem a =
     (if sz = 1 then Some (scast (load8 mem a))
      else if sz = 2 then Some (scast (load16 mem a))
      else if sz = 4 then Some (scast (load32 mem a))
      else if sz = 8 then Some (load64 mem a)
      else None)"

definition WaitOnAddressFallback ::
  "(nat \<Rightarrow> nat \<Rightarrow> bool) \<Rightarrow> (addr \<Rightarrow> 8 word) \<Rightarrow> addr \<Rightarrow> addr \<Rightarrow> nat \<Rightarrow> nat
     \<Rightarrow> failure + (bool \<times> wait_event list)" where
  "WaitOnAddressFallback sleep mem a v sz ms =
     (let bucket = wait_addr_get_bucket a
      in case (load_sized sz mem a, load_sized sz mem v) of
           (Some futex, Some val) \<Rightarrow>
             if futex = val
             then Inr (sleep bucket ms,
                       [EnterCriticalSection bucket, SleepConditionVariableCS bucket ms,
                        LeaveCriticalSection bucket])
             else Inr (False, [EnterCriticalSection bucket, LeaveCriticalSection bucket])
         | _ \<Rightarrow> Inl AssertionFailed)"


subsection \<open>Thread-specific variables\<close>

text \<open>
  What a thread sees of the operating system's thread-local storage: the value of every
  slot and the last-error code.
\<close>

record tls_env =
  slots :: "nat \<Rightarrow> addr"
  last_error :: nat

text \<open>
  \<open>TlsSetValue\<close> and \<open>TlsGetValue\<close> belong to the operating system. Whether a store
  succeeds for an index, and what either call leaves in the last-error code (from the index
  and the code before the call), are parameters.
\<close>

record tls_api =
  set_succeeds :: "nat \<Rightarrow> bool"
  set_error :: "nat \<Rightarrow> nat \<Rightarrow> nat"
  get_error :: "nat \<Rightarrow> nat \<Rightarrow> nat"

definition TlsSetValue :: "tls_api \<Rightarrow> nat \<Rightarrow> addr \<Rightarrow> tls_env \<Rightarrow> bool \<times> tls_env" where
  "TlsSetValue api i v e =
     (if set_succeeds api i
      then (True, e\<lparr>slots := (slots e)(i := v), last_error := set_error api i (last_error e)\<rparr>)
      else (False, e\<lparr>last_error := set_error api i (last_error e)\<rparr>))"

definition TlsGetValue :: "tls_api \<Rightarrow> nat \<Rightarrow> tls_env \<Rightarrow> addr \<times> tls_env" where
  "TlsGetValue api i e = (slots e i, e\<lparr>last_error := get_error api i (last_error e)\<rparr>)"

definition GetLastError :: "tls_env \<Rightarrow> nat" where
  "GetLastError e = last_error e"

definition SetLastError :: "nat \<Rightarrow> tls_env \<Rightarrow> tls_env" where
  "SetLastError c e = e\<lparr>last_error := c\<rparr>"

definition ENOMEM :: int where
  "ENOMEM = 12"

text \<open>
  \<open>struct vlc_threadvar\<close>: the storage index and the destructor (\<open>NULL\<close> for none).
  The \<open>prev\<close> links are the list of all variables, read from \<open>vlc_threadvar_last\<close>.
\<close>

record vlc_threadvar =
  var_id :: nat
  destroy :: addr

definition vlc_threadvar_set :: "tls_api \<Rightarrow> vlc_threadvar \<Rightarrow> addr \<Rightarrow> tls_env \<Rightarrow> int \<times> tls_env" where
  "vlc_threadvar_set api key v e =
     (let saved = GetLastError e;
          (ok, e1) = TlsSetValue api (var_id key) v e;
          val = (if ok then ENOMEM else 0)
      in if val = 0 then (val, SetLastError saved e1) else (val, e1))"

definition vlc_threadvar_get :: "tls_api \<Rightarrow> vlc_threadvar \<Rightarrow> tls_env \<Rightarrow> addr \<times> tls_env" where
  "vlc_threadvar_get api key e =
     (let saved = GetLastError e;
          (v, e1) = TlsGetValue api (var_id key) e
      in (v, SetLastError saved e1))"

text \<open>
  The scan at thread exit. A destructor is code of the caller: \<open>run f v\<close> is what the
  destructor at address \<open>f\<close> does, called with \<open>v\<close>, to the registry and to the
  thread's storage. Every call of a destructor is recorded with the storage as the scan
  found it and as the destructor finds it. The first argument of
  \<open>vlc_threadvars_cleanup\<close> bounds the number of passes (\<open>goto retry\<close>); the last
  component of the result says whether the scan came to its end within the bound.
\<close>

record tls_state =
  vars :: "vlc_threadvar list"
  tls :: tls_env

record destructor_call =
  call_key :: vlc_threadvar
  call_arg :: addr
  before_reset :: tls_env
  at_call :: tls_env

fun scan :: "tls_api \<Rightarrow> vlc_threadvar list \<Rightarrow> tls_env \<Rightarrow> (vlc_threadvar \<times> addr) option \<times> tls_env" where
  "scan api [] e = (None, e)"
| "scan api (key # rest) e =
     (case vlc_threadvar_get api key e of
        (v, e1) \<Rightarrow>
          if v \<noteq> NULL \<and> destroy key \<noteq> NULL then (Some (key, v), e1)
          else scan api rest e1)"

fun vlc_threadvars_cleanup ::
  "nat \<Rightarrow> tls_api \<Rightarrow> (addr \<Rightarrow> addr \<Rightarrow> tls_state \<Rightarrow> tls_state) \<Rightarrow> tls_state
     \<Rightarrow> destructor_call list \<times> tls_state \<times> bool" where
  "vlc_threadvars_cleanup 0 api run st = ([], st, False)"
| "vlc_threadvars_cleanup (Suc n) api run st =
     (case scan api (vars st) (tls st) of
        (None, e1) \<Rightarrow> ([], st\<lparr>tls := e1\<rparr>, True)
      | (Some (key, v), e1) \<Rightarrow>
          (case vlc_threadvar_set api key NULL e1 of
             (r, e2) \<Rightarrow>
               (case vlc_threadvars_cleanup n api run (run (destroy key) v (st\<lparr>tls := e2\<rparr>)) of
                  (calls, st', fin) \<Rightarrow>
                    (\<lparr>call_key = key, call_arg = v, before_reset = e1, at_call = e2\<rparr> # calls,
                     st', fin))))"

text \<open>
  What the environment of the scan may be assumed to do: every store succeeds; no
  destructor stores a value other than \<open>NULL\<close> in a slot that holds \<open>NULL\<close>; no
  destructor changes the registry; no destructor changes a slot.
\<close>

definition stores_succeed :: "tls_api \<Rightarrow> bool" where
  "stores_succeed api = (\<forall>i. set_succeeds api i)"

definition nulls_kept :: "(addr \<Rightarrow> addr \<Rightarrow> tls_state \<Rightarrow> tls_state) \<Rightarrow> bool" where
  "nulls_kept run = (\<forall>f v s i. slots (tls s) i = NULL \<longrightarrow> slots (tls (run f v s)) i = NULL)"

definition vars_kept :: "(addr \<Rightarrow> addr \<Rightarrow> tls_state \<Rightarrow> tls_state) \<Rightarrow> bool" where
  "vars_kept run = (\<forall>f v s. vars (run f v s) = vars s)"

definition slots_kept :: "(addr \<Rightarrow> addr \<Rightarrow> tls_state \<Rightarrow> tls_state) \<Rightarrow> bool" where
  "slots_kept run = (\<forall>f v s. slots (tls (run f v s)) = slots (tls s))"

text \<open>
  The variables that a pass of the scan stops at, the storage as the destructor of such
  a variable finds it, and the number of variables still to be destroyed.
\<close>

definition qualifies :: "tls_env \<Rightarrow> vlc_threadvar \<Rightarrow> bool" where
  "qualifies e k = (slots e (var_id k) \<noteq> NULL \<and> destroy k \<noteq> NULL)"

definition after_reset :: "tls_api \<Rightarrow> vlc_threadvar \<Rightarrow> tls_env \<Rightarrow> tls_env" where
  "after_reset api key e =
     e\<lparr>slots := (slots e)(var_id key := NULL),
       last_error := set_error api (var_id key) (last_error e)\<rparr>"

definition todo :: "tls_state \<Rightarrow> nat" where
  "todo st = length (filter (qualifies (tls st)) (vars st))"

subsection \<open>Clock\<close>

text \<open>
  \<open>mdate_selected\<close> holds one of the six clock functions. \<open>clock_host\<close> collects
  what the build and the operating system decide: \<open>VLC_WINSTORE_APP\<close>, whether the
  two kernel32 entry points are found, and whether \<open>timeGetDevCaps\<close> and
  \<open>QueryPerformanceFrequency\<close> succeed. \<open>mdate\<close> returns the function that reads
  the time. The argument \<open>str\<close> of \<open>SelectClockSource\<close> is what
  \<open>var_InheritString (obj, "clock-source")\<close> returns.
\<close>

datatype clock_source =
  mdate_default | mdate_interrupt | mdate_tick | mdate_multimedia | mdate_perf | mdate_wall

record clock_state =
  mdate_selected :: clock_source
  clock_used_early :: bool

record clock_host =
  winstore_app :: bool
  interrupt_query_found :: bool
  tick_get_found :: bool
  timecaps_ok :: bool
  perf_frequency_ok :: bool

definition mdate :: "clock_host \<Rightarrow> clock_state \<Rightarrow> failure + (clock_source \<times> clock_state)" where
  "mdate host st =
     (case mdate_selected st of
        mdate_default \<Rightarrow>
          if clock_used_early st then Inr (mdate_perf, st)
          else if perf_frequency_ok host then Inr (mdate_perf, st\<lparr>clock_used_early := True\<rparr>)
          else Inl Aborted
      | src \<Rightarrow> Inr (src, st))"

definition SelectClockSource ::
  "clock_host \<Rightarrow> string option \<Rightarrow> clock_state \<Rightarrow> failure + clock_state" where
  "SelectClockSource host str st =
     (if mdate_selected st \<noteq> mdate_default then Inr st
      else if clock_used_early st then Inl AssertionFailed
      else
        (let name = (case str of
                       None \<Rightarrow> (if winstore_app host then ''perf'' else ''multimedia'')
                     | Some s \<Rightarrow> s)
         in if name = ''interrupt'' then
              (if interrupt_query_found host then Inr (st\<lparr>mdate_selected := mdate_interrupt\<rparr>)
               else Inl Aborted)
            else if name = ''tick'' then
              (if tick_get_found host then Inr (st\<lparr>mdate_selected := mdate_tick\<rparr>)
               else Inl Aborted)
            else if \<not> winstore_app host \<and> name = ''multimedia'' then
              (if timecaps_ok host then Inr (st\<lparr>mdate_selected := mdate_multimedia\<rparr>)
               else Inl Aborted)
            else if name = ''perf'' then
              (if perf_frequency_ok host then Inr (st\<lparr>mdate_selected := mdate_perf\<rparr>)
               else Inl Aborted)
            else if name = ''wall'' then Inr (st\<lparr>mdate_selected := mdate_wall\<rparr>)
            else Inl Aborted))"

text \<open>A process calls \<open>SelectClockSource\<close> and \<open>mdate\<close> in some order.\<close>

datatype clock_call = Select clock_host "string option" | Now clock_host

fun clock_calls :: "clock_call list \<Rightarrow> clock_state \<Rightarrow> failure + (clock_source list \<times> clock_state)" where
  "clock_calls [] st = Inr ([], st)"
| "clock_calls (Select host str # cs) st =
     (case SelectClockSource host str st of
        Inl f \<Rightarrow> Inl f
      | Inr st1 \<Rightarrow> clock_calls cs st1)"
| "clock_calls (Now host # cs) st =
     (case mdate host st of
        Inl f \<Rightarrow> Inl f
      | Inr (src, st1) \<Rightarrow>
          (case clock_calls cs st1 of
             Inl f \<Rightarrow> Inl f
           | Inr (srcs, st2) \<Rightarrow> Inr (src # srcs, st2)))"

fun is_Now :: "clock_call \<Rightarrow> bool" where
  "is_Now (Now host) = True"
| "is_Now (Select host str) = False"

subsection \<open>Timers\<close>

text \<open>
  \<open>struct vlc_timer\<close>, with \<open>None\<close> for \<open>INVALID_HANDLE_VALUE\<close>. A
  \<open>vlc_timer_t\<close> is the address of such a record. The timer queue of the operating
  system is the list of its live timers, each under its handle, with the argument the
  callback will get and the two delays in milliseconds.
\<close>

record vlc_timer =
  handle :: "nat option"
  func :: addr
  tm_data :: addr

type_synonym mtime_t = "64 word"

type_synonym DWORD = "32 word"

record native_timer =
  parameter :: addr
  due_time :: DWORD
  period :: DWORD

record timer_world =
  timers :: "addr \<Rightarrow> vlc_timer option"
  queue :: "(nat \<times> native_timer) list"

datatype timer_event =
    DeleteTimerQueueTimer nat
  | CreateTimerQueueTimer nat addr DWORD DWORD

text \<open>
  \<open>mtime_t\<close> is \<open>int64_t\<close>: sums and differences wrap around, \<open>/\<close> rounds
  towards zero, and a value passed as \<open>DWORD\<close> keeps its low 32 bits.
\<close>

definition mtime_div :: "mtime_t \<Rightarrow> mtime_t \<Rightarrow> mtime_t" where
  "mtime_div a b = word_of_int (sint a sdiv sint b)"

definition to_DWORD :: "mtime_t \<Rightarrow> DWORD" where
  "to_DWORD v = ucast v"

text \<open>
  The first statement of \<open>vlc_timer_schedule\<close>. \<open>winstore\<close> is \<open>VLC_WINSTORE_APP\<close>,
  \<open>now\<close> is what \<open>mdate ()\<close> returns and \<open>created\<close> is the handle that
  \<open>CreateTimerQueueTimer\<close> hands back, \<open>None\<close> when it fails.
\<close>

definition disarm :: "bool \<Rightarrow> addr \<Rightarrow> vlc_timer \<Rightarrow> timer_world \<Rightarrow> timer_world \<times> timer_event list" where
  "disarm winstore t tm w =
     (case handle tm of
        None \<Rightarrow> (w, [])
      | Some h \<Rightarrow>
          (if winstore then (w\<lparr>timers := (timers w)(t \<mapsto> tm\<lparr>handle := None\<rparr>)\<rparr>, [])
           else (w\<lparr>timers := (timers w)(t \<mapsto> tm\<lparr>handle := None\<rparr>),
                   queue := filter (\<lambda>e. fst e \<noteq> h) (queue w)\<rparr>,
                 [DeleteTimerQueueTimer h])))"

definition vlc_timer_schedule ::
  "bool \<Rightarrow> mtime_t \<Rightarrow> nat option \<Rightarrow> addr \<Rightarrow> bool \<Rightarrow> mtime_t \<Rightarrow> mtime_t \<Rightarrow> timer_world
     \<Rightarrow> failure + (timer_world \<times> timer_event list)" where
  "vlc_timer_schedule winstore now created t absolute val interval w =
     (case timers w t of
        None \<Rightarrow> Inl NullDereference
      | Some tm \<Rightarrow>
          (case disarm winstore t tm w of
             (w1, ev1) \<Rightarrow>
               if val = 0 then Inr (w1, ev1)
               else
                 (let v1 = (if absolute then (if val - now <s 0 then 0 else val - now) else val);
                      v2 = mtime_div (v1 + 999) 1000;
                      i2 = mtime_div (interval + 999) 1000
                  in if winstore then Inl Aborted
                     else
                       (case created of
                          None \<Rightarrow> Inl Aborted
                        | Some h \<Rightarrow>
                            Inr (w1\<lparr>timers := (timers w1)(t \<mapsto> tm\<lparr>handle := Some h\<rparr>),
                                    queue := queue w1 @
                                      [(h, \<lparr>parameter = t, due_time = to_DWORD v2,
                                            period = to_DWORD i2\<rparr>)]\<rparr>,
                                 ev1 @ [CreateTimerQueueTimer h t (to_DWORD v2) (to_DWORD i2)])))))"

text \<open>
  The native timers that call back into a timer record, and the state in which the queue
  and the records agree: handles are distinct and the native timers of a record are
  exactly the one its \<open>handle\<close> names.
\<close>

definition owned :: "timer_world \<Rightarrow> addr \<Rightarrow> (nat \<times> native_timer) list" where
  "owned w t = filter (\<lambda>e. parameter (snd e) = t) (queue w)"

definition armed :: "vlc_timer \<Rightarrow> nat list" where
  "armed tm = (case handle tm of None \<Rightarrow> [] | Some h \<Rightarrow> [h])"

definition world_inv :: "timer_world \<Rightarrow> bool" where
  "world_inv w \<longleftrightarrow>
     distinct (map fst (queue w))
     \<and> (\<forall>t tm. timers w t = Some tm \<longrightarrow> map fst (owned w t) = armed tm)"

text \<open>
  What the operating system is taken to guarantee: the handle of a new native timer
  differs from the handles of the native timers that are live when it is created, that
  is, after the native timer of the record has been deleted. It may be the handle just
  freed.
\<close>

definition fresh :: "nat option \<Rightarrow> vlc_timer \<Rightarrow> timer_world \<Rightarrow> bool" where
  "fresh created tm w =
     (case created of
        None \<Rightarrow> True
      | Some h \<Rightarrow> h \<notin> fst ` set (filter (\<lambda>e. fst e \<notin> set (armed tm)) (queue w)))"

text \<open>The delay in milliseconds that a call asks for, as the native timer gets it.\<close>

definition delay_ms :: "bool \<Rightarrow> mtime_t \<Rightarrow> mtime_t \<Rightarrow> DWORD" where
  "delay_ms absolute now val =
     to_DWORD (mtime_div
       ((if absolute then (if val - now <s 0 then 0 else val - now) else val) + 999) 1000)"

section \<open>Properties\<close>

text \<open>
  C9: on a thread with a record, \<open>vlc_savecancel\<close> followed at once by
  \<open>vlc_restorecancel\<close> of the state it returned succeeds and gives back the record
  as it was: the killable flag has its value from before the pair, and no other field
  (the kill flag, the cleanup stack, the wait address) has changed.
\<close>

theorem savecancel_restorecancel_noop:
  "vlc_restorecancel (fst (vlc_savecancel (Some th))) (snd (vlc_savecancel (Some th)))
     = Inr (Some th)"
  by (simp add: vlc_savecancel_def vlc_restorecancel_def)

text \<open>
  C10: on a thread with no record every call of the cancellation interface comes back
  without effect: \<open>vlc_testcancel\<close> continues with no event, \<open>vlc_savecancel\<close>
  returns false, \<open>vlc_restorecancel\<close> of either state returns, and
  \<open>vlc_control_cancel\<close> returns for every command without an event; there is still
  no record afterwards.
\<close>

theorem cancellation_without_record:
  "vlc_testcancel None = (Continue, None, [])
   \<and> vlc_savecancel None = (0, None)
   \<and> vlc_restorecancel 0 None = Inr None
   \<and> vlc_restorecancel 1 None = Inr None
   \<and> vlc_control_cancel cmd None = Inr (None, [])"
  by (simp add: vlc_testcancel_def vlc_savecancel_def vlc_restorecancel_def
      vlc_control_cancel_def)

subsection \<open>Cancelling a thread\<close>

lemma and_minus2_bit: "bit (w AND (- 2 :: 32 word)) n \<longleftrightarrow> bit w n \<and> 0 < n"
  using bit_imp_le_length [of w n] by (auto simp add: bit_simps)

text \<open>
  C2 (as amended): \<open>vlc_cancel\<close> sets the kill flag first and changes nothing else in
  the record. Then, inside the wait-address lock, when a wait address is registered it
  clears the lowest-order bit of the watched word, and that bit only (every other bit and
  every other word is unchanged), and broadcasts a wake on that address; when none is
  registered it changes no word and wakes nobody. The events are exactly the ones listed,
  the queued interrupt included where the build has it.
\<close>

theorem vlc_cancel_marks_and_wakes:
  "fst (vlc_cancel i th mem) = th\<lparr>killed := True\<rparr>
   \<and> (wait_addr th \<noteq> NULL \<longrightarrow>
        \<not> bit (fst (snd (vlc_cancel i th mem)) (wait_addr th)) 0
        \<and> (\<forall>n. 0 < n \<longrightarrow>
              bit (fst (snd (vlc_cancel i th mem)) (wait_addr th)) n = bit (mem (wait_addr th)) n)
        \<and> (\<forall>b. b \<noteq> wait_addr th \<longrightarrow> fst (snd (vlc_cancel i th mem)) b = mem b)
        \<and> snd (snd (vlc_cancel i th mem))
            = [AtomicStoreKilled, EnterWaitLock, AtomicFetchAnd (wait_addr th) (- 2),
               WakeByAddressAll (wait_addr th), LeaveWaitLock]
              @ (if i then [QueueUserAPC (th_id th)] else []))
   \<and> (wait_addr th = NULL \<longrightarrow>
        fst (snd (vlc_cancel i th mem)) = mem
        \<and> snd (snd (vlc_cancel i th mem))
            = [AtomicStoreKilled, EnterWaitLock, LeaveWaitLock]
              @ (if i then [QueueUserAPC (th_id th)] else []))"
  by (simp add: vlc_cancel_def Let_def and_minus2_bit)

theorem vlc_cancel_marks_and_wakes_witness:
  "\<not> bit (fst (snd (vlc_cancel True
        \<lparr>th_id = 1, killable = True, killed = False, cleaners = [], th_entry = 2,
         th_data = 3, wait_addr = 8\<rparr> (\<lambda>a. 3))) 8) 0
   \<and> bit (fst (snd (vlc_cancel True
        \<lparr>th_id = 1, killable = True, killed = False, cleaners = [], th_entry = 2,
         th_data = 3, wait_addr = 8\<rparr> (\<lambda>a. 3))) 8) 1
   \<and> snd (snd (vlc_cancel True
        \<lparr>th_id = 1, killable = True, killed = False, cleaners = [], th_entry = 2,
         th_data = 3, wait_addr = 8\<rparr> (\<lambda>a. 3)))
       = [AtomicStoreKilled, EnterWaitLock, AtomicFetchAnd 8 (- 2), WakeByAddressAll 8,
          LeaveWaitLock, QueueUserAPC 1]
   \<and> fst (snd (vlc_cancel True
        \<lparr>th_id = 1, killable = True, killed = False, cleaners = [], th_entry = 2,
         th_data = 3, wait_addr = 0\<rparr> (\<lambda>a. 3))) = (\<lambda>a. 3)
   \<and> snd (snd (vlc_cancel True
        \<lparr>th_id = 1, killable = True, killed = False, cleaners = [], th_entry = 2,
         th_data = 3, wait_addr = 0\<rparr> (\<lambda>a. 3)))
       = [AtomicStoreKilled, EnterWaitLock, LeaveWaitLock, QueueUserAPC 1]"
  using vlc_cancel_marks_and_wakes [of True
        "\<lparr>th_id = 1, killable = True, killed = False, cleaners = [], th_entry = 2,
          th_data = 3, wait_addr = 8\<rparr>" "\<lambda>a. 3"]
    vlc_cancel_marks_and_wakes [of True
        "\<lparr>th_id = 1, killable = True, killed = False, cleaners = [], th_entry = 2,
          th_data = 3, wait_addr = 0\<rparr>" "\<lambda>a. 3"]
  by (simp add: NULL_def)

text \<open>
  The watched word 3 becomes 2: the second of the two low-order bits is still set.
\<close>

theorem vlc_cancel_two_bits_counterexample:
  "fst (snd (vlc_cancel True
        \<lparr>th_id = 1, killable = True, killed = False, cleaners = [], th_entry = 2,
         th_data = 3, wait_addr = 8\<rparr> (\<lambda>a. 3))) 8 AND 3 = 2"
  by (simp add: vlc_cancel_def NULL_def)

subsection \<open>Acting on a cancellation\<close>

text \<open>
  C3, the code at a thread that is killable and killed, not detached, with one cleanup
  handler: the handler runs and the thread ends, but the killable flag of the record is
  still true, so a second \<open>vlc_testcancel\<close> on that record (a handler that reaches a
  cancellation point) starts the cleanup again.
\<close>

theorem vlc_testcancel_leaves_killable:
  "vlc_testcancel (Some \<lparr>th_id = 1, killable = True, killed = True,
       cleaners = [\<lparr>proc = 10, cl_data = 20\<rparr>], th_entry = 2, th_data = 3, wait_addr = 0\<rparr>)
     = (Terminated,
        Some \<lparr>th_id = 1, killable = True, killed = True,
          cleaners = [\<lparr>proc = 10, cl_data = 20\<rparr>], th_entry = 2, th_data = 0, wait_addr = 0\<rparr>,
        [CleanupProc 10 20, EndThread])
   \<and> fst (vlc_testcancel (fst (snd (vlc_testcancel (Some \<lparr>th_id = 1, killable = True,
       killed = True, cleaners = [\<lparr>proc = 10, cl_data = 20\<rparr>], th_entry = 2, th_data = 3,
       wait_addr = 0\<rparr>))))) = Terminated"
  by (simp add: vlc_testcancel_def NULL_def)

subsection \<open>Locking a static mutex\<close>

lemma testcancel_unkillable:
  "unkillable self \<Longrightarrow> vlc_testcancel self = (Continue, self, [])"
  by (auto simp: vlc_testcancel_def unkillable_def split: option.splits)

lemma unkillable_pending: "unkillable self \<Longrightarrow> unkillable (pending k self)"
  by (auto simp: unkillable_def pending_def split: option.splits)

lemma pending_pending: "pending k (pending j self) = pending (j \<or> k) self"
  by (cases self) (auto simp: pending_def)

lemma pending_False: "pending False self = self"
  by (cases self) (auto simp: pending_def)

lemma cond_wait_unkillable:
  assumes u: "unkillable self"
  shows "vlc_cond_wait kill self = (Continue, pending kill self, [])"
proof -
  have e: "(if kill then map_option (\<lambda>th. th\<lparr>killed := True\<rparr>) self else self) = pending kill self"
    by (cases self) (auto simp: pending_def)
  from u have "unkillable (pending kill self)" by (rule unkillable_pending)
  then have "vlc_testcancel (pending kill self) = (Continue, pending kill self, [])"
    by (rule testcancel_unkillable)
  with u e show ?thesis
    by (simp add: vlc_cond_wait_def testcancel_unkillable)
qed

lemma wait_loop_step:
  assumes "unkillable self" and "locked m"
  shows "static_wait_loop m self evs ((kill, l) # env)
     = static_wait_loop
         (m\<lparr>contention := contention m + 1\<rparr>
            \<lparr>locked := l, contention := contention (m\<lparr>contention := contention m + 1\<rparr>) - 1\<rparr>)
         (pending kill self) evs env"
  using assms by (subst static_wait_loop.simps) (simp add: cond_wait_unkillable Let_def)

lemma wait_loop_unlocked: "\<not> locked m \<Longrightarrow> static_wait_loop m self evs env = Acquired m self evs"
  by (subst static_wait_loop.simps) simp

lemma wait_loop_exhausted: "locked m \<Longrightarrow> static_wait_loop m self evs [] = Blocked"
  by (subst static_wait_loop.simps) simp

lemma wait_loop_unkillable:
  "unkillable self \<Longrightarrow>
     static_wait_loop m self evs env = Blocked
     \<or> (\<exists>m' k. static_wait_loop m self evs env = Acquired m' (pending k self) evs)"
proof (induction env arbitrary: m self)
  case Nil
  show ?case
    by (cases "locked m") (auto simp: wait_loop_unlocked wait_loop_exhausted
        intro: exI [of _ False] simp: pending_False)
next
  case (Cons e env)
  obtain kill l where e: "e = (kill, l)" by (cases e)
  show ?case
  proof (cases "locked m")
    case False
    then show ?thesis
      by (auto simp: wait_loop_unlocked intro: exI [of _ False] simp: pending_False)
  next
    case True
    from Cons.prems have "unkillable (pending kill self)" by (rule unkillable_pending)
    from Cons.IH [OF this] show ?thesis
      unfolding e wait_loop_step [OF Cons.prems True] by (auto simp: pending_pending)
  qed
qed

lemma wait_loop_blocked:
  "unkillable self \<Longrightarrow> locked m \<Longrightarrow> \<forall>e \<in> set env. snd e \<Longrightarrow>
     static_wait_loop m self evs env = Blocked"
proof (induction env arbitrary: m self)
  case Nil
  then show ?case by (simp add: wait_loop_exhausted)
next
  case (Cons e env)
  obtain kill l where e: "e = (kill, l)" by (cases e)
  with Cons.prems(3) have l: "l" by simp
  let ?m = "m\<lparr>contention := contention m + 1\<rparr>
              \<lparr>locked := l, contention := contention (m\<lparr>contention := contention m + 1\<rparr>) - 1\<rparr>"
  from Cons.prems(1) have u: "unkillable (pending kill self)" by (rule unkillable_pending)
  from l have lm: "locked ?m" by simp
  from Cons.prems(3) have "\<forall>e \<in> set env. snd e" by simp
  from Cons.IH [OF u lm this] show ?case
    unfolding e wait_loop_step [OF Cons.prems(1) Cons.prems(2)] .
qed

lemma wait_loop_released:
  "unkillable self \<Longrightarrow> locked m \<Longrightarrow> \<forall>e \<in> set pre. snd e \<Longrightarrow>
     static_wait_loop m self evs (pre @ (k, False) # post)
       = Acquired (m\<lparr>locked := False\<rparr>) (pending (k \<or> (\<exists>e \<in> set pre. fst e)) self) evs"
proof (induction pre arbitrary: m self)
  case Nil
  let ?m = "m\<lparr>contention := contention m + 1\<rparr>
              \<lparr>locked := False, contention := contention (m\<lparr>contention := contention m + 1\<rparr>) - 1\<rparr>"
  have m: "?m = m\<lparr>locked := False\<rparr>" by simp
  have "static_wait_loop m self evs ((k, False) # post)
      = static_wait_loop ?m (pending k self) evs post"
    by (rule wait_loop_step [OF Nil.prems(1) Nil.prems(2)])
  also have "\<dots> = Acquired ?m (pending k self) evs"
    by (rule wait_loop_unlocked) simp
  finally show ?case unfolding m by simp
next
  case (Cons e pre)
  obtain kill l where e: "e = (kill, l)" by (cases e)
  with Cons.prems(3) have l: "l" by simp
  let ?m = "m\<lparr>contention := contention m + 1\<rparr>
              \<lparr>locked := l, contention := contention (m\<lparr>contention := contention m + 1\<rparr>) - 1\<rparr>"
  from Cons.prems(1) have u: "unkillable (pending kill self)" by (rule unkillable_pending)
  from l have lm: "locked ?m" by simp
  have m: "?m\<lparr>locked := False\<rparr> = m\<lparr>locked := False\<rparr>" by simp
  have b: "(kill \<or> k \<or> (\<exists>e \<in> set pre. fst e)) = (k \<or> (\<exists>e \<in> set ((kill, l) # pre). fst e))"
    by auto
  from Cons.prems(3) have "\<forall>e \<in> set pre. snd e" by simp
  from Cons.IH [OF u lm this] show ?case
    unfolding e append_Cons wait_loop_step [OF Cons.prems(1) Cons.prems(2)] m pending_pending b .
qed

lemma savecancel_unkillable: "unkillable (snd (vlc_savecancel self))"
  by (auto simp: vlc_savecancel_def unkillable_def split: option.splits)

lemma restore_pending:
  "vlc_restorecancel (fst (vlc_savecancel self)) (pending k (snd (vlc_savecancel self)))
     = Inr (pending k self)"
  by (cases self) (auto simp: vlc_savecancel_def vlc_restorecancel_def pending_def)

text \<open>
  C4 (as amended): \<open>vlc_mutex_lock\<close> on a static mutex is not a cancellation point.
  Whatever the calling thread's record and whatever the other threads do, the call never
  ends in a cancellation. When the mutex is free the call returns with it at once and the
  record is untouched. When the mutex is held and is released at some wake-up, the call
  returns holding the mutex, with no cleanup handler run (no event at all); the killable
  flag is restored, and the kill flag is set exactly when it was set before the call or a
  cancellation request arrived at one of the wake-ups up to the release: the kill is
  still pending. When the mutex is never released the caller stays blocked.
\<close>

theorem static_mutex_lock_defers_cancellation:
  "\<not> dynamic m \<Longrightarrow>
     (\<forall>s e. vlc_mutex_lock m self env \<noteq> Cancelled s e)
     \<and> (\<not> locked m \<longrightarrow> vlc_mutex_lock m self env = Acquired (m\<lparr>locked := True\<rparr>) self [])
     \<and> (locked m \<and> (\<forall>e \<in> set pre. snd e) \<longrightarrow>
          vlc_mutex_lock m self (pre @ (k, False) # post)
            = Acquired (m\<lparr>locked := True\<rparr>) (pending (k \<or> (\<exists>e \<in> set pre. fst e)) self) [])
     \<and> (locked m \<and> (\<forall>e \<in> set env. snd e) \<longrightarrow> vlc_mutex_lock m self env = Blocked)"
proof -
  assume st: "\<not> dynamic m"
  obtain canc self1 where sc: "vlc_savecancel self = (canc, self1)"
    by (cases "vlc_savecancel self")
  have u: "unkillable self1" using savecancel_unkillable [of self] sc by simp
  have restore: "vlc_restorecancel canc (pending j self1) = Inr (pending j self)" for j
    using restore_pending [of self j] sc by simp
  have never: "vlc_mutex_lock m self env \<noteq> Cancelled s e" for s e
    using wait_loop_unkillable [OF u, of m "[]" env] st sc restore
    by (auto simp: vlc_mutex_lock_def)
  have free: "vlc_mutex_lock m self env = Acquired (m\<lparr>locked := True\<rparr>) self []"
    if "\<not> locked m"
    using wait_loop_unlocked [OF that, of self1 "[]" env] restore [of False] st sc
    by (simp add: vlc_mutex_lock_def pending_False)
  have released: "vlc_mutex_lock m self (pre @ (k, False) # post)
      = Acquired (m\<lparr>locked := True\<rparr>) (pending (k \<or> (\<exists>e \<in> set pre. fst e)) self) []"
    if "locked m" "\<forall>e \<in> set pre. snd e"
    using wait_loop_released [OF u that, of "[]" k post] restore st sc
    by (simp add: vlc_mutex_lock_def)
  have blocked: "vlc_mutex_lock m self env = Blocked"
    if "locked m" "\<forall>e \<in> set env. snd e"
    using wait_loop_blocked [OF u that, of "[]"] st sc
    by (simp add: vlc_mutex_lock_def)
  from never free released blocked show ?thesis by blast
qed

theorem static_mutex_lock_defers_cancellation_witness:
  "vlc_mutex_lock \<lparr>dynamic = False, locked = True, contention = 0\<rparr>
       (Some \<lparr>th_id = 1, killable = True, killed = False,
          cleaners = [\<lparr>proc = 10, cl_data = 20\<rparr>], th_entry = 2, th_data = 3, wait_addr = 0\<rparr>)
       [(False, True), (True, False)]
     = Acquired \<lparr>dynamic = False, locked = True, contention = 0\<rparr>
         (Some \<lparr>th_id = 1, killable = True, killed = True,
            cleaners = [\<lparr>proc = 10, cl_data = 20\<rparr>], th_entry = 2, th_data = 3, wait_addr = 0\<rparr>) []"
  using static_mutex_lock_defers_cancellation [of "\<lparr>dynamic = False, locked = True, contention = 0\<rparr>"
      "Some \<lparr>th_id = 1, killable = True, killed = False,
          cleaners = [\<lparr>proc = 10, cl_data = 20\<rparr>], th_entry = 2, th_data = 3, wait_addr = 0\<rparr>"
      "[]" "[(False, True)]" True "[]"]
  by (simp add: pending_def)

text \<open>
  A killable thread with a kill pending asks for a static mutex that is held and is
  released at the first wake-up: the call returns with the mutex and the record
  untouched, the cleanup handler has not run and the thread has not ended.
\<close>

theorem static_mutex_lock_counterexample:
  "vlc_mutex_lock \<lparr>dynamic = False, locked = True, contention = 0\<rparr>
       (Some \<lparr>th_id = 1, killable = True, killed = True,
          cleaners = [\<lparr>proc = 10, cl_data = 20\<rparr>], th_entry = 2, th_data = 3, wait_addr = 0\<rparr>)
       [(False, False)]
     = Acquired \<lparr>dynamic = False, locked = True, contention = 0\<rparr>
         (Some \<lparr>th_id = 1, killable = True, killed = True,
            cleaners = [\<lparr>proc = 10, cl_data = 20\<rparr>], th_entry = 2, th_data = 3, wait_addr = 0\<rparr>) []"
  by (simp add: vlc_mutex_lock_def vlc_savecancel_def vlc_restorecancel_def
      static_wait_loop.simps vlc_cond_wait_def vlc_testcancel_def)

subsection \<open>Waiting on an address\<close>

text \<open>
  C1: for every address, expected value, timeout and size of 1, 2, 4 or 8 bytes, a call
  of \<open>WaitOnAddressFallback\<close> made while the value stored at the address differs from
  the expected one enters and leaves the bucket's critical section and returns false
  without sleeping on the bucket's condition variable; it sleeps, once and inside the
  critical section, exactly when the value read there equals the expected one.
\<close>

theorem wait_on_address_sleeps_only_on_equal:
  "load_sized sz mem a = Some futex \<Longrightarrow> load_sized sz mem v = Some val \<Longrightarrow>
     (futex \<noteq> val \<longrightarrow>
        WaitOnAddressFallback sleep mem a v sz ms
          = Inr (False, [EnterCriticalSection (wait_addr_get_bucket a),
                         LeaveCriticalSection (wait_addr_get_bucket a)]))
     \<and> (futex = val \<longrightarrow>
        WaitOnAddressFallback sleep mem a v sz ms
          = Inr (sleep (wait_addr_get_bucket a) ms,
                 [EnterCriticalSection (wait_addr_get_bucket a),
                  SleepConditionVariableCS (wait_addr_get_bucket a) ms,
                  LeaveCriticalSection (wait_addr_get_bucket a)]))"
  by (simp add: WaitOnAddressFallback_def Let_def)

theorem wait_on_address_sleeps_only_on_equal_witness:
  "WaitOnAddressFallback (\<lambda>b ms. True) ((\<lambda>x. 0)(8 := 1)) 8 100 4 50
     = Inr (False, [EnterCriticalSection 1, LeaveCriticalSection 1])
   \<and> WaitOnAddressFallback (\<lambda>b ms. True) ((\<lambda>x. 0)(8 := 1, 100 := 1)) 8 100 4 50
     = Inr (True, [EnterCriticalSection 1, SleepConditionVariableCS 1 50, LeaveCriticalSection 1])"
proof -
  have b: "wait_addr_get_bucket 8 = 1"
    by (simp add: wait_addr_get_bucket_def drop_bit_eq_div)
  have l1: "load_sized 4 ((\<lambda>x. 0)(8 := 1)) 8 = Some 1" "load_sized 4 ((\<lambda>x. 0)(8 := 1)) 100 = Some 0"
    by (simp_all add: load_sized_def load32_def load16_def)
  have l2: "load_sized 4 ((\<lambda>x. 0)(8 := 1, 100 := 1)) 8 = Some 1"
    "load_sized 4 ((\<lambda>x. 0)(8 := 1, 100 := 1)) 100 = Some 1"
    by (simp_all add: load_sized_def load32_def load16_def)
  from wait_on_address_sleeps_only_on_equal [OF l1, of "\<lambda>b ms. True" 50]
    wait_on_address_sleeps_only_on_equal [OF l2, of "\<lambda>b ms. True" 50]
  show ?thesis by (simp add: b)
qed

subsection \<open>Thread-specific variables\<close>

text \<open>
  C8, the code at a store that succeeds while the operating system leaves 87 in the
  last-error code, where the caller had 6: \<open>vlc_threadvar_set\<close> has stored the value,
  returns \<open>ENOMEM\<close> and comes back with 87, the saved code not restored.
  \<open>vlc_threadvar_get\<close> on the same storage, where the operating system leaves 0, comes
  back with 6.
\<close>

theorem threadvar_set_drops_saved_last_error:
  "last_error \<lparr>slots = \<lambda>i. 0, last_error = 6\<rparr> = 6
   \<and> fst (vlc_threadvar_set
          \<lparr>set_succeeds = \<lambda>i. True, set_error = \<lambda>i c. 87, get_error = \<lambda>i c. 0\<rparr>
          \<lparr>var_id = 1, destroy = 0\<rparr> 5 \<lparr>slots = \<lambda>i. 0, last_error = 6\<rparr>) = ENOMEM
   \<and> slots (snd (vlc_threadvar_set
          \<lparr>set_succeeds = \<lambda>i. True, set_error = \<lambda>i c. 87, get_error = \<lambda>i c. 0\<rparr>
          \<lparr>var_id = 1, destroy = 0\<rparr> 5 \<lparr>slots = \<lambda>i. 0, last_error = 6\<rparr>)) 1 = 5
   \<and> last_error (snd (vlc_threadvar_set
          \<lparr>set_succeeds = \<lambda>i. True, set_error = \<lambda>i c. 87, get_error = \<lambda>i c. 0\<rparr>
          \<lparr>var_id = 1, destroy = 0\<rparr> 5 \<lparr>slots = \<lambda>i. 0, last_error = 6\<rparr>)) = 87
   \<and> last_error (snd (vlc_threadvar_get
          \<lparr>set_succeeds = \<lambda>i. True, set_error = \<lambda>i c. 87, get_error = \<lambda>i c. 0\<rparr>
          \<lparr>var_id = 1, destroy = 0\<rparr> \<lparr>slots = \<lambda>i. 0, last_error = 6\<rparr>)) = 6"
  by (simp add: vlc_threadvar_set_def vlc_threadvar_get_def TlsSetValue_def TlsGetValue_def
      GetLastError_def SetLastError_def ENOMEM_def)

text \<open>
  What the two accessors do in general: \<open>vlc_threadvar_get\<close> leaves the storage and
  the last-error code as they were; \<open>vlc_threadvar_set\<close> restores the code exactly when
  the store failed.
\<close>

lemma get_env: "snd (vlc_threadvar_get api key e) = e"
  by (simp add: vlc_threadvar_get_def TlsGetValue_def GetLastError_def SetLastError_def)

lemma get_val: "fst (vlc_threadvar_get api key e) = slots e (var_id key)"
  by (simp add: vlc_threadvar_get_def TlsGetValue_def GetLastError_def SetLastError_def)

lemma scan_env: "snd (scan api ks e) = e"
proof (induction ks arbitrary: e)
  case Nil show ?case by simp
next
  case (Cons k ks)
  obtain v e1 where g: "vlc_threadvar_get api k e = (v, e1)" by (cases "vlc_threadvar_get api k e")
  with get_env [of api k e] have "e1 = e" by simp
  with g Cons show ?case by simp
qed

lemma scan_found:
  "scan api ks e = (Some (key, v), e1) \<Longrightarrow>
     key \<in> set ks \<and> v = slots e (var_id key) \<and> v \<noteq> NULL \<and> destroy key \<noteq> NULL"
proof (induction ks arbitrary: e)
  case Nil then show ?case by simp
next
  case (Cons k ks)
  obtain w e2 where g: "vlc_threadvar_get api k e = (w, e2)" by (cases "vlc_threadvar_get api k e")
  with get_env [of api k e] get_val [of api k e] have e2: "e2 = e" and w: "w = slots e (var_id k)" by simp_all
  show ?case
  proof (cases "w \<noteq> NULL \<and> destroy k \<noteq> NULL")
    case True
    with Cons.prems g w show ?thesis by auto
  next
    case False
    with Cons.prems g have "scan api ks e2 = (Some (key, v), e1)" by auto
    from Cons.IH [OF this] e2 show ?thesis by auto
  qed
qed

lemma set_on_success:
  "set_succeeds api (var_id key) \<Longrightarrow>
     vlc_threadvar_set api key v e
       = (ENOMEM, e\<lparr>slots := (slots e)(var_id key := v),
                    last_error := set_error api (var_id key) (last_error e)\<rparr>)"
  by (simp add: vlc_threadvar_set_def TlsSetValue_def GetLastError_def SetLastError_def ENOMEM_def)

lemma set_on_failure:
  "\<not> set_succeeds api (var_id key) \<Longrightarrow> vlc_threadvar_set api key v e = (0, e)"
  by (simp add: vlc_threadvar_set_def TlsSetValue_def GetLastError_def SetLastError_def)

lemma set_slots:
  "set_succeeds api (var_id key) \<Longrightarrow>
     slots (snd (vlc_threadvar_set api key v e)) = (slots e)(var_id key := v)"
  by (simp add: set_on_success)

lemma cleanup_found:
  assumes "scan api (vars st) (tls st) = (Some (key, v), e1)"
  shows "vlc_threadvars_cleanup (Suc n) api run st =
     (\<lparr>call_key = key, call_arg = v, before_reset = tls st,
        at_call = snd (vlc_threadvar_set api key NULL (tls st))\<rparr>
      # fst (vlc_threadvars_cleanup n api run
           (run (destroy key) v (st\<lparr>tls := snd (vlc_threadvar_set api key NULL (tls st))\<rparr>))),
      snd (vlc_threadvars_cleanup n api run
           (run (destroy key) v (st\<lparr>tls := snd (vlc_threadvar_set api key NULL (tls st))\<rparr>))))"
proof -
  from scan_env [of api "vars st" "tls st"] assms have "e1 = tls st" by simp
  with assms show ?thesis by (simp split: prod.splits)
qed

lemma cleanup_none:
  assumes "fst (scan api (vars st) (tls st)) = None"
  shows "vlc_threadvars_cleanup (Suc n) api run st = ([], st, True)"
proof -
  obtain e1 where "scan api (vars st) (tls st) = (None, e1)"
    using assms by (cases "scan api (vars st) (tls st)") auto
  moreover from this scan_env [of api "vars st" "tls st"] have "e1 = tls st" by simp
  ultimately show ?thesis by simp
qed

lemma cleanup_calls_reset:
  "stores_succeed api \<Longrightarrow> c \<in> set (fst (vlc_threadvars_cleanup n api run st)) \<Longrightarrow>
     call_arg c \<noteq> NULL \<and> destroy (call_key c) \<noteq> NULL
     \<and> call_arg c = slots (before_reset c) (var_id (call_key c))
     \<and> slots (at_call c) = (slots (before_reset c))(var_id (call_key c) := NULL)"
proof (induction n arbitrary: st)
  case 0
  then show ?case by simp
next
  case (Suc n)
  show ?case
  proof (cases "fst (scan api (vars st) (tls st))")
    case None
    from Suc.prems(2) show ?thesis unfolding cleanup_none [OF None] by simp
  next
    case (Some kv)
    obtain key v where kv: "kv = (key, v)" by (cases kv)
    obtain e1 where sc: "scan api (vars st) (tls st) = (Some (key, v), e1)"
      using Some kv by (cases "scan api (vars st) (tls st)") auto
    from scan_found [OF sc] have f: "v = slots (tls st) (var_id key)" "v \<noteq> NULL" "destroy key \<noteq> NULL"
      by simp_all
    from Suc.prems(1) have ok: "set_succeeds api (var_id key)" by (simp add: stores_succeed_def)
    from Suc.prems(2) consider
      "c = \<lparr>call_key = key, call_arg = v, before_reset = tls st,
            at_call = snd (vlc_threadvar_set api key NULL (tls st))\<rparr>"
      | "c \<in> set (fst (vlc_threadvars_cleanup n api run
           (run (destroy key) v (st\<lparr>tls := snd (vlc_threadvar_set api key NULL (tls st))\<rparr>))))"
      unfolding cleanup_found [OF sc] by auto
    then show ?thesis
    proof cases
      case 1
      with f set_slots [OF ok, of NULL "tls st"] show ?thesis by simp
    next
      case 2
      from Suc.IH [OF Suc.prems(1) 2] show ?thesis .
    qed
  qed
qed

lemma cleanup_nulls_stay:
  "stores_succeed api \<Longrightarrow> nulls_kept run \<Longrightarrow>
     c \<in> set (fst (vlc_threadvars_cleanup n api run st)) \<Longrightarrow>
     slots (tls st) i = NULL \<Longrightarrow> slots (at_call c) i = NULL"
proof (induction n arbitrary: st)
  case 0
  then show ?case by simp
next
  case (Suc n)
  show ?case
  proof (cases "fst (scan api (vars st) (tls st))")
    case None
    from Suc.prems(3) show ?thesis unfolding cleanup_none [OF None] by simp
  next
    case (Some kv)
    obtain key v where kv: "kv = (key, v)" by (cases kv)
    obtain e1 where sc: "scan api (vars st) (tls st) = (Some (key, v), e1)"
      using Some kv by (cases "scan api (vars st) (tls st)") auto
    from Suc.prems(1) have ok: "set_succeeds api (var_id key)" by (simp add: stores_succeed_def)
    let ?e2 = "snd (vlc_threadvar_set api key NULL (tls st))"
    let ?st3 = "run (destroy key) v (st\<lparr>tls := ?e2\<rparr>)"
    have e2: "slots ?e2 i = NULL"
      using set_slots [OF ok, of NULL "tls st"] Suc.prems(4) by simp
    from Suc.prems(3) consider
      "c = \<lparr>call_key = key, call_arg = v, before_reset = tls st, at_call = ?e2\<rparr>"
      | "c \<in> set (fst (vlc_threadvars_cleanup n api run ?st3))"
      unfolding cleanup_found [OF sc] by auto
    then show ?thesis
    proof cases
      case 1
      with e2 show ?thesis by simp
    next
      case 2
      from Suc.prems(2) e2 have "slots (tls ?st3) i = NULL"
        unfolding nulls_kept_def by simp
      from Suc.IH [OF Suc.prems(1) Suc.prems(2) 2 this] show ?thesis .
    qed
  qed
qed

lemma cleanup_later_reads_null:
  "stores_succeed api \<Longrightarrow> nulls_kept run \<Longrightarrow>
     i < j \<Longrightarrow> j < length (fst (vlc_threadvars_cleanup n api run st)) \<Longrightarrow>
     slots (at_call (fst (vlc_threadvars_cleanup n api run st) ! j))
       (var_id (call_key (fst (vlc_threadvars_cleanup n api run st) ! i))) = NULL"
proof (induction n arbitrary: st i j)
  case 0
  then show ?case by simp
next
  case (Suc n)
  show ?case
  proof (cases "fst (scan api (vars st) (tls st))")
    case None
    from Suc.prems(4) show ?thesis unfolding cleanup_none [OF None] by simp
  next
    case (Some kv)
    obtain key v where kv: "kv = (key, v)" by (cases kv)
    obtain e1 where sc: "scan api (vars st) (tls st) = (Some (key, v), e1)"
      using Some kv by (cases "scan api (vars st) (tls st)") auto
    from Suc.prems(1) have ok: "set_succeeds api (var_id key)" by (simp add: stores_succeed_def)
    let ?e2 = "snd (vlc_threadvar_set api key NULL (tls st))"
    let ?st3 = "run (destroy key) v (st\<lparr>tls := ?e2\<rparr>)"
    let ?rest = "fst (vlc_threadvars_cleanup n api run ?st3)"
    obtain j' where j: "j = Suc j'" using Suc.prems(3) by (cases j) auto
    from Suc.prems(4) have j'len: "j' < length ?rest"
      unfolding cleanup_found [OF sc] j by simp
    show ?thesis
    proof (cases i)
      case 0
      have "slots ?e2 (var_id key) = NULL"
        using set_slots [OF ok, of NULL "tls st"] by simp
      with Suc.prems(2) have "slots (tls ?st3) (var_id key) = NULL"
        unfolding nulls_kept_def by simp
      from cleanup_nulls_stay [OF Suc.prems(1) Suc.prems(2) nth_mem [OF j'len] this]
      show ?thesis unfolding cleanup_found [OF sc] j 0 by simp
    next
      case (Suc i')
      with Suc.prems(3) j have "i' < j'" by simp
      from Suc.IH [OF Suc.prems(1) Suc.prems(2) this j'len]
      show ?thesis unfolding cleanup_found [OF sc] j Suc by simp
    qed
  qed
qed

lemma filter_shrinks:
  assumes "\<And>x. x \<in> set xs \<Longrightarrow> Q x \<Longrightarrow> P x" and "y \<in> set xs" and "P y" and "\<not> Q y"
  shows "length (filter Q xs) < length (filter P xs)"
proof -
  have eq: "filter Q (filter P xs) = filter Q xs"
    unfolding filter_filter using assms(1) by (intro filter_cong) auto
  have "y \<in> set (filter P xs)" using assms(2,3) by simp
  then have "length (filter Q (filter P xs)) < length (filter P xs)"
    using assms(4) by (rule length_filter_less [where P = Q])
  then show ?thesis unfolding eq .
qed

lemma cleanup_finishes:
  "stores_succeed api \<Longrightarrow> nulls_kept run \<Longrightarrow> vars_kept run \<Longrightarrow> todo st < n \<Longrightarrow>
     snd (snd (vlc_threadvars_cleanup n api run st))"
proof (induction n arbitrary: st)
  case 0
  then show ?case by simp
next
  case (Suc n)
  show ?case
  proof (cases "fst (scan api (vars st) (tls st))")
    case None
    show ?thesis unfolding cleanup_none [OF None] by simp
  next
    case (Some kv)
    obtain key v where kv: "kv = (key, v)" by (cases kv)
    obtain e1 where sc: "scan api (vars st) (tls st) = (Some (key, v), e1)"
      using Some kv by (cases "scan api (vars st) (tls st)") auto
    from scan_found [OF sc] have f: "key \<in> set (vars st)" "v = slots (tls st) (var_id key)"
      "v \<noteq> NULL" "destroy key \<noteq> NULL"
      by simp_all
    from Suc.prems(1) have ok: "set_succeeds api (var_id key)" by (simp add: stores_succeed_def)
    let ?e2 = "snd (vlc_threadvar_set api key NULL (tls st))"
    let ?st3 = "run (destroy key) v (st\<lparr>tls := ?e2\<rparr>)"
    have e2: "slots ?e2 = (slots (tls st))(var_id key := NULL)"
      using set_slots [OF ok, of NULL "tls st"] .
    have v3: "vars ?st3 = vars st" using Suc.prems(3) by (simp add: vars_kept_def)
    have keep: "slots (tls ?st3) i \<noteq> NULL \<Longrightarrow> slots ?e2 i \<noteq> NULL" for i
      using Suc.prems(2) unfolding nulls_kept_def by force
    have "todo ?st3 < todo st"
      unfolding todo_def qualifies_def v3
    proof (rule filter_shrinks [where y = key])
      fix x assume "x \<in> set (vars st)" "slots (tls ?st3) (var_id x) \<noteq> NULL \<and> destroy x \<noteq> NULL"
      with keep [of "var_id x"] e2
      show "slots (tls st) (var_id x) \<noteq> NULL \<and> destroy x \<noteq> NULL"
        by (auto split: if_splits)
    next
      show "key \<in> set (vars st)" by (rule f(1))
      show "slots (tls st) (var_id key) \<noteq> NULL \<and> destroy key \<noteq> NULL" using f by simp
      show "\<not> (slots (tls ?st3) (var_id key) \<noteq> NULL \<and> destroy key \<noteq> NULL)"
        using keep [of "var_id key"] e2 by auto
    qed
    with Suc.prems(4) have "todo ?st3 < n" by simp
    from Suc.IH [OF Suc.prems(1) Suc.prems(2) Suc.prems(3) this]
    show ?thesis unfolding cleanup_found [OF sc] by simp
  qed
qed

lemma scan_skips:
  "\<forall>k \<in> set pre. \<not> qualifies e k \<Longrightarrow> scan api (pre @ rest) e = scan api rest e"
proof (induction pre)
  case Nil
  show ?case by simp
next
  case (Cons k pre)
  obtain w e2 where g: "vlc_threadvar_get api k e = (w, e2)" by (cases "vlc_threadvar_get api k e")
  with get_env [of api k e] get_val [of api k e] have "e2 = e" and "w = slots e (var_id k)"
    by simp_all
  with g Cons show ?case by (auto simp: qualifies_def)
qed

lemma scan_first:
  "qualifies e key \<Longrightarrow> scan api (key # post) e = (Some (key, slots e (var_id key)), e)"
proof -
  assume q: "qualifies e key"
  obtain w e2 where g: "vlc_threadvar_get api key e = (w, e2)"
    by (cases "vlc_threadvar_get api key e")
  with get_env [of api key e] get_val [of api key e] have "e2 = e" and "w = slots e (var_id key)"
    by simp_all
  with g q show ?thesis by (simp add: qualifies_def)
qed

lemma cleanup_pass_none:
  assumes "\<forall>k \<in> set (vars st). \<not> qualifies (tls st) k"
  shows "vlc_threadvars_cleanup (Suc n) api run st = ([], st, True)"
proof -
  have "scan api (vars st @ []) (tls st) = scan api [] (tls st)"
    using assms by (rule scan_skips)
  then have "fst (scan api (vars st) (tls st)) = None" by simp
  then show ?thesis by (rule cleanup_none)
qed

lemma cleanup_pass_first:
  assumes ok: "set_succeeds api (var_id key)"
    and v: "vars st = pre @ key # post"
    and pre: "\<forall>k \<in> set pre. \<not> qualifies (tls st) k"
    and q: "qualifies (tls st) key"
  shows "vlc_threadvars_cleanup (Suc n) api run st =
     (\<lparr>call_key = key, call_arg = slots (tls st) (var_id key), before_reset = tls st,
        at_call = after_reset api key (tls st)\<rparr>
      # fst (vlc_threadvars_cleanup n api run
           (run (destroy key) (slots (tls st) (var_id key))
              (st\<lparr>tls := after_reset api key (tls st)\<rparr>))),
      snd (vlc_threadvars_cleanup n api run
           (run (destroy key) (slots (tls st) (var_id key))
              (st\<lparr>tls := after_reset api key (tls st)\<rparr>))))"
proof -
  have "scan api (vars st) (tls st) = scan api (key # post) (tls st)"
    unfolding v using pre by (rule scan_skips)
  also have "\<dots> = (Some (key, slots (tls st) (var_id key)), tls st)"
    using q by (rule scan_first)
  finally have sc: "scan api (vars st) (tls st) = (Some (key, slots (tls st) (var_id key)), tls st)" .
  have "snd (vlc_threadvar_set api key NULL (tls st)) = after_reset api key (tls st)"
    using set_on_success [OF ok, of NULL "tls st"] by (simp add: after_reset_def)
  then show ?thesis using cleanup_found [OF sc, of n run] by simp
qed

lemma cleanup_exact:
  "stores_succeed api \<Longrightarrow> slots_kept run \<Longrightarrow> vars_kept run \<Longrightarrow>
     distinct (map var_id (vars st)) \<Longrightarrow> todo st < n \<Longrightarrow>
     map call_key (fst (vlc_threadvars_cleanup n api run st))
       = filter (qualifies (tls st)) (vars st)
     \<and> map call_arg (fst (vlc_threadvars_cleanup n api run st))
       = map (\<lambda>k. slots (tls st) (var_id k)) (filter (qualifies (tls st)) (vars st))
     \<and> snd (snd (vlc_threadvars_cleanup n api run st))"
proof (induction n arbitrary: st)
  case 0
  then show ?case by simp
next
  case (Suc n)
  show ?case
  proof (cases "\<exists>k \<in> set (vars st). qualifies (tls st) k")
    case False
    then have none: "\<forall>k \<in> set (vars st). \<not> qualifies (tls st) k" by simp
    then have "filter (qualifies (tls st)) (vars st) = []" by (simp add: filter_empty_conv)
    then show ?thesis unfolding cleanup_pass_none [OF none] by simp
  next
    case True
    then obtain pre key post where v: "vars st = pre @ key # post"
      and q: "qualifies (tls st) key" and pre: "\<forall>k \<in> set pre. \<not> qualifies (tls st) k"
      using split_list_first_prop [of "vars st" "qualifies (tls st)"] by blast
    from Suc.prems(1) have ok: "set_succeeds api (var_id key)" by (simp add: stores_succeed_def)
    let ?st3 = "run (destroy key) (slots (tls st) (var_id key))
                  (st\<lparr>tls := after_reset api key (tls st)\<rparr>)"
    have v3: "vars ?st3 = vars st" using Suc.prems(3) by (simp add: vars_kept_def)
    have s3: "slots (tls ?st3) = (slots (tls st))(var_id key := NULL)"
      using Suc.prems(2) by (simp add: slots_kept_def after_reset_def)
    have q3: "qualifies (tls ?st3) x \<longleftrightarrow> qualifies (tls st) x \<and> var_id x \<noteq> var_id key" for x
      unfolding qualifies_def s3 by auto
    from Suc.prems(4) have "var_id key \<notin> var_id ` set post" unfolding v by simp
    then have other: "var_id x \<noteq> var_id key" if "x \<in> set post" for x
      using that by (metis imageI)
    have f_pre: "filter (qualifies (tls st)) pre = []"
      using pre by (simp add: filter_empty_conv)
    have f3_pre: "filter (qualifies (tls ?st3)) pre = []"
      using pre q3 by (simp add: filter_empty_conv)
    have f3_post: "filter (qualifies (tls ?st3)) post = filter (qualifies (tls st)) post"
      using other q3 by (intro filter_cong) auto
    have f: "filter (qualifies (tls st)) (vars st) = key # filter (qualifies (tls st)) post"
      unfolding v using f_pre q by simp
    have f3: "filter (qualifies (tls ?st3)) (vars ?st3) = filter (qualifies (tls st)) post"
      unfolding v3 v using f3_pre f3_post q3 [of key] by simp
    have a3: "map (\<lambda>k. slots (tls ?st3) (var_id k)) (filter (qualifies (tls st)) post)
        = map (\<lambda>k. slots (tls st) (var_id k)) (filter (qualifies (tls st)) post)"
      unfolding s3 using other by (intro map_cong) auto
    have "todo ?st3 < n" using Suc.prems(5) unfolding todo_def f f3 by simp
    moreover have "distinct (map var_id (vars ?st3))" using Suc.prems(4) unfolding v3 .
    ultimately have ih: "map call_key (fst (vlc_threadvars_cleanup n api run ?st3))
          = filter (qualifies (tls ?st3)) (vars ?st3)
        \<and> map call_arg (fst (vlc_threadvars_cleanup n api run ?st3))
          = map (\<lambda>k. slots (tls ?st3) (var_id k)) (filter (qualifies (tls ?st3)) (vars ?st3))
        \<and> snd (snd (vlc_threadvars_cleanup n api run ?st3))"
      using Suc.IH [OF Suc.prems(1) Suc.prems(2) Suc.prems(3)] by blast
    show ?thesis
      unfolding cleanup_pass_first [OF ok v pre q] f
      using ih unfolding f3 a3 by simp
  qed
qed

text \<open>
  C5 (as amended): in the scan at thread exit, as long as the stores of the operating
  system succeed, and for any destructors:
  \<^item> a pass that finds no variable with a value other than \<open>NULL\<close> and a destructor ends
    the scan, and nothing is called;
  \<^item> otherwise the pass stops at the first such variable, from the one registered last:
    its slot is reset to \<open>NULL\<close> and then its destructor is called with the old value,
    and the scan starts again from what the destructor leaves;
  \<^item> so every destructor that is called, in any number of passes, belongs to a variable
    whose value was not \<open>NULL\<close>, gets that value, and finds its own slot holding
    \<open>NULL\<close> and every other slot as the scan found it.
  When no destructor stores a value in an empty slot, every destructor called later reads
  \<open>NULL\<close> from the slots processed before it, and, the registry left alone, the scan
  comes to its end. When the destructors leave the slots and the registry alone, the
  destructors called are exactly those of the variables that had a value and a
  destructor when the scan began, each once, in the order of the registry.
\<close>

theorem threadvars_cleanup_resets_before_destroy:
  "stores_succeed api \<Longrightarrow>
     ((\<forall>k \<in> set (vars st). \<not> qualifies (tls st) k) \<longrightarrow>
        vlc_threadvars_cleanup (Suc n) api run st = ([], st, True))
     \<and> (vars st = pre @ key # post \<and> (\<forall>k \<in> set pre. \<not> qualifies (tls st) k)
          \<and> qualifies (tls st) key \<longrightarrow>
        vlc_threadvars_cleanup (Suc n) api run st =
          (\<lparr>call_key = key, call_arg = slots (tls st) (var_id key), before_reset = tls st,
             at_call = after_reset api key (tls st)\<rparr>
           # fst (vlc_threadvars_cleanup n api run
                (run (destroy key) (slots (tls st) (var_id key))
                   (st\<lparr>tls := after_reset api key (tls st)\<rparr>))),
           snd (vlc_threadvars_cleanup n api run
                (run (destroy key) (slots (tls st) (var_id key))
                   (st\<lparr>tls := after_reset api key (tls st)\<rparr>)))))
     \<and> (\<forall>c \<in> set (fst (vlc_threadvars_cleanup n api run st)).
        call_arg c \<noteq> NULL \<and> destroy (call_key c) \<noteq> NULL
        \<and> call_arg c = slots (before_reset c) (var_id (call_key c))
        \<and> slots (at_call c) = (slots (before_reset c))(var_id (call_key c) := NULL))
     \<and> (nulls_kept run \<longrightarrow>
          (\<forall>i j. i < j \<and> j < length (fst (vlc_threadvars_cleanup n api run st)) \<longrightarrow>
             slots (at_call (fst (vlc_threadvars_cleanup n api run st) ! j))
               (var_id (call_key (fst (vlc_threadvars_cleanup n api run st) ! i))) = NULL))
     \<and> (nulls_kept run \<and> vars_kept run \<and> todo st < n \<longrightarrow>
          snd (snd (vlc_threadvars_cleanup n api run st)))
     \<and> (slots_kept run \<and> vars_kept run \<and> distinct (map var_id (vars st)) \<and> todo st < n \<longrightarrow>
          map call_key (fst (vlc_threadvars_cleanup n api run st))
            = filter (qualifies (tls st)) (vars st)
          \<and> map call_arg (fst (vlc_threadvars_cleanup n api run st))
            = map (\<lambda>k. slots (tls st) (var_id k)) (filter (qualifies (tls st)) (vars st))
          \<and> snd (snd (vlc_threadvars_cleanup n api run st)))"
proof -
  assume ok: "stores_succeed api"
  then have k: "set_succeeds api (var_id key)" by (simp add: stores_succeed_def)
  have c1: "(\<forall>k \<in> set (vars st). \<not> qualifies (tls st) k) \<longrightarrow>
      vlc_threadvars_cleanup (Suc n) api run st = ([], st, True)"
    by (rule impI) (rule cleanup_pass_none)
  have c2: "vars st = pre @ key # post \<and> (\<forall>k \<in> set pre. \<not> qualifies (tls st) k)
          \<and> qualifies (tls st) key \<longrightarrow>
        vlc_threadvars_cleanup (Suc n) api run st =
          (\<lparr>call_key = key, call_arg = slots (tls st) (var_id key), before_reset = tls st,
             at_call = after_reset api key (tls st)\<rparr>
           # fst (vlc_threadvars_cleanup n api run
                (run (destroy key) (slots (tls st) (var_id key))
                   (st\<lparr>tls := after_reset api key (tls st)\<rparr>))),
           snd (vlc_threadvars_cleanup n api run
                (run (destroy key) (slots (tls st) (var_id key))
                   (st\<lparr>tls := after_reset api key (tls st)\<rparr>))))"
  proof (intro impI, elim conjE)
    assume "vars st = pre @ key # post" "\<forall>k \<in> set pre. \<not> qualifies (tls st) k"
      "qualifies (tls st) key"
    then show "vlc_threadvars_cleanup (Suc n) api run st =
          (\<lparr>call_key = key, call_arg = slots (tls st) (var_id key), before_reset = tls st,
             at_call = after_reset api key (tls st)\<rparr>
           # fst (vlc_threadvars_cleanup n api run
                (run (destroy key) (slots (tls st) (var_id key))
                   (st\<lparr>tls := after_reset api key (tls st)\<rparr>))),
           snd (vlc_threadvars_cleanup n api run
                (run (destroy key) (slots (tls st) (var_id key))
                   (st\<lparr>tls := after_reset api key (tls st)\<rparr>))))"
      by (rule cleanup_pass_first [OF k])
  qed
  have c3: "\<forall>c \<in> set (fst (vlc_threadvars_cleanup n api run st)).
        call_arg c \<noteq> NULL \<and> destroy (call_key c) \<noteq> NULL
        \<and> call_arg c = slots (before_reset c) (var_id (call_key c))
        \<and> slots (at_call c) = (slots (before_reset c))(var_id (call_key c) := NULL)"
    by (rule ballI) (rule cleanup_calls_reset [OF ok])
  have c4: "nulls_kept run \<longrightarrow>
          (\<forall>i j. i < j \<and> j < length (fst (vlc_threadvars_cleanup n api run st)) \<longrightarrow>
             slots (at_call (fst (vlc_threadvars_cleanup n api run st) ! j))
               (var_id (call_key (fst (vlc_threadvars_cleanup n api run st) ! i))) = NULL)"
  proof (intro impI allI, elim conjE)
    fix i j
    assume "nulls_kept run" "i < j" "j < length (fst (vlc_threadvars_cleanup n api run st))"
    then show "slots (at_call (fst (vlc_threadvars_cleanup n api run st) ! j))
               (var_id (call_key (fst (vlc_threadvars_cleanup n api run st) ! i))) = NULL"
      by (rule cleanup_later_reads_null [OF ok])
  qed
  have c5: "nulls_kept run \<and> vars_kept run \<and> todo st < n \<longrightarrow>
          snd (snd (vlc_threadvars_cleanup n api run st))"
  proof (intro impI, elim conjE)
    assume "nulls_kept run" "vars_kept run" "todo st < n"
    then show "snd (snd (vlc_threadvars_cleanup n api run st))"
      by (rule cleanup_finishes [OF ok])
  qed
  have c6: "slots_kept run \<and> vars_kept run \<and> distinct (map var_id (vars st)) \<and> todo st < n \<longrightarrow>
          map call_key (fst (vlc_threadvars_cleanup n api run st))
            = filter (qualifies (tls st)) (vars st)
          \<and> map call_arg (fst (vlc_threadvars_cleanup n api run st))
            = map (\<lambda>k. slots (tls st) (var_id k)) (filter (qualifies (tls st)) (vars st))
          \<and> snd (snd (vlc_threadvars_cleanup n api run st))"
  proof (intro impI, elim conjE)
    assume "slots_kept run" "vars_kept run" "distinct (map var_id (vars st))" "todo st < n"
    then show "map call_key (fst (vlc_threadvars_cleanup n api run st))
            = filter (qualifies (tls st)) (vars st)
          \<and> map call_arg (fst (vlc_threadvars_cleanup n api run st))
            = map (\<lambda>k. slots (tls st) (var_id k)) (filter (qualifies (tls st)) (vars st))
          \<and> snd (snd (vlc_threadvars_cleanup n api run st))"
      by (rule cleanup_exact [OF ok])
  qed
  show ?thesis
    by (rule conjI [OF c1 conjI [OF c2 conjI [OF c3 conjI [OF c4 conjI [OF c5 c6]]]]])
qed

theorem threadvars_cleanup_resets_before_destroy_witness:
  "map (\<lambda>c. (destroy (call_key c), call_arg c))
     (fst (vlc_threadvars_cleanup (Suc (Suc (Suc 0)))
       \<lparr>set_succeeds = \<lambda>i. True, set_error = \<lambda>i c. c, get_error = \<lambda>i c. 0\<rparr>
       (\<lambda>f v s. s)
       \<lparr>vars = [\<lparr>var_id = 1, destroy = 100\<rparr>, \<lparr>var_id = 2, destroy = 0\<rparr>,
                \<lparr>var_id = 3, destroy = 300\<rparr>, \<lparr>var_id = 4, destroy = 400\<rparr>],
        tls = \<lparr>slots = (\<lambda>i. 0)(1 := 11, 2 := 22, 3 := 33), last_error = 0\<rparr>\<rparr>))
     = [(100, 11), (300, 33)]
   \<and> snd (snd (vlc_threadvars_cleanup (Suc (Suc (Suc 0)))
       \<lparr>set_succeeds = \<lambda>i. True, set_error = \<lambda>i c. c, get_error = \<lambda>i c. 0\<rparr>
       (\<lambda>f v s. s)
       \<lparr>vars = [\<lparr>var_id = 1, destroy = 100\<rparr>, \<lparr>var_id = 2, destroy = 0\<rparr>,
                \<lparr>var_id = 3, destroy = 300\<rparr>, \<lparr>var_id = 4, destroy = 400\<rparr>],
        tls = \<lparr>slots = (\<lambda>i. 0)(1 := 11, 2 := 22, 3 := 33), last_error = 0\<rparr>\<rparr>))"
proof -
  let ?api = "\<lparr>set_succeeds = \<lambda>i. True, set_error = \<lambda>i c. c, get_error = \<lambda>i c. 0\<rparr>"
  let ?run = "\<lambda>(f :: addr) (v :: addr) (s :: tls_state). s"
  let ?e = "\<lparr>slots = (\<lambda>i. 0)(1 := 11, 2 := 22, 3 := 33), last_error = 0\<rparr>"
  let ?vars = "[\<lparr>var_id = 1, destroy = 100\<rparr>, \<lparr>var_id = 2, destroy = 0\<rparr>,
                \<lparr>var_id = 3, destroy = 300\<rparr>, \<lparr>var_id = 4, destroy = 400\<rparr>]"
  let ?st = "\<lparr>vars = ?vars, tls = ?e\<rparr>"
  have h1: "stores_succeed ?api" by (simp add: stores_succeed_def)
  have h2: "slots_kept ?run" by (simp add: slots_kept_def)
  have h3: "vars_kept ?run" by (simp add: vars_kept_def)
  have h4: "distinct (map var_id (vars ?st))" by simp
  have f: "filter (qualifies (tls ?st)) (vars ?st)
      = [\<lparr>var_id = 1, destroy = 100\<rparr>, \<lparr>var_id = 3, destroy = 300\<rparr>]"
    by (simp add: qualifies_def NULL_def)
  have h5: "todo ?st < Suc (Suc (Suc 0))" unfolding todo_def f by simp
  have six: "slots_kept ?run \<and> vars_kept ?run \<and> distinct (map var_id (vars ?st))
      \<and> todo ?st < Suc (Suc (Suc 0))"
    using h2 h3 h4 h5 by (intro conjI)
  note t = threadvars_cleanup_resets_before_destroy
    [OF h1, of ?st "Suc (Suc (Suc 0))" ?run "[]" "\<lparr>var_id = 1, destroy = 100\<rparr>" "tl ?vars"]
  have "map call_key (fst (vlc_threadvars_cleanup (Suc (Suc (Suc 0))) ?api ?run ?st))
          = filter (qualifies (tls ?st)) (vars ?st)
      \<and> map call_arg (fst (vlc_threadvars_cleanup (Suc (Suc (Suc 0))) ?api ?run ?st))
          = map (\<lambda>k. slots (tls ?st) (var_id k)) (filter (qualifies (tls ?st)) (vars ?st))
      \<and> snd (snd (vlc_threadvars_cleanup (Suc (Suc (Suc 0))) ?api ?run ?st))"
    by (rule t [THEN conjunct2, THEN conjunct2, THEN conjunct2, THEN conjunct2, THEN conjunct2,
          THEN mp, OF six])
  then have "map call_key (fst (vlc_threadvars_cleanup (Suc (Suc (Suc 0))) ?api ?run ?st))
          = [\<lparr>var_id = 1, destroy = 100\<rparr>, \<lparr>var_id = 3, destroy = 300\<rparr>]"
      and "map call_arg (fst (vlc_threadvars_cleanup (Suc (Suc (Suc 0))) ?api ?run ?st)) = [11, 33]"
      and fin: "snd (snd (vlc_threadvars_cleanup (Suc (Suc (Suc 0))) ?api ?run ?st))"
    unfolding f by simp_all
  then have "map (\<lambda>c. (destroy (call_key c), call_arg c))
       (fst (vlc_threadvars_cleanup (Suc (Suc (Suc 0))) ?api ?run ?st)) = [(100, 11), (300, 33)]"
    by (auto simp: map_eq_Cons_conv)
  with fin show ?thesis by simp
qed

text \<open>
  Two variables; only the second has a value, 5. Its destructor stores 9 in the slot of
  the first and 7 in its own. The destructor of the first variable is then called with 9
  and reads 7 from the slot of the second, which the scan has processed already.
\<close>

theorem threadvars_cleanup_refill_counterexample:
  "map (\<lambda>c. (destroy (call_key c), call_arg c, slots (at_call c) 1, slots (at_call c) 2))
     (fst (vlc_threadvars_cleanup (Suc (Suc 0))
       \<lparr>set_succeeds = \<lambda>i. True, set_error = \<lambda>i c. c, get_error = \<lambda>i c. 0\<rparr>
       (\<lambda>f v s. if f = 200 \<and> v = 5
                 then s\<lparr>tls := (tls s)\<lparr>slots := (slots (tls s))(1 := 9, 2 := 7)\<rparr>\<rparr> else s)
       \<lparr>vars = [\<lparr>var_id = 1, destroy = 100\<rparr>, \<lparr>var_id = 2, destroy = 200\<rparr>],
        tls = \<lparr>slots = (\<lambda>i. 0)(2 := 5), last_error = 0\<rparr>\<rparr>))
     = [(200, 5, 0, 0), (100, 9, 0, 7)]"
  by (simp add: vlc_threadvar_get_def vlc_threadvar_set_def TlsGetValue_def TlsSetValue_def
      GetLastError_def SetLastError_def ENOMEM_def NULL_def)

subsection \<open>Selecting the clock source\<close>

lemma select_installs:
  "SelectClockSource host str st = Inr st1 \<Longrightarrow> mdate_selected st1 \<noteq> mdate_default"
  by (auto simp: SelectClockSource_def Let_def split: if_splits)

lemma select_again:
  "mdate_selected st \<noteq> mdate_default \<Longrightarrow> SelectClockSource host str st = Inr st"
  by (simp add: SelectClockSource_def)

lemma mdate_fixed:
  "mdate_selected st \<noteq> mdate_default \<Longrightarrow> mdate host st = Inr (mdate_selected st, st)"
  by (cases "mdate_selected st") (simp_all add: mdate_def)

lemma clock_calls_fixed:
  "mdate_selected st \<noteq> mdate_default \<Longrightarrow>
     clock_calls cs st = Inr (replicate (length (filter is_Now cs)) (mdate_selected st), st)"
proof (induction cs)
  case Nil
  show ?case by simp
next
  case (Cons c cs)
  then show ?case
    by (cases c) (simp_all add: select_again mdate_fixed)
qed

lemma select_after_use:
  "mdate_selected st = mdate_default \<Longrightarrow> clock_used_early st \<Longrightarrow>
     SelectClockSource host str st = Inl AssertionFailed"
  by (simp add: SelectClockSource_def)

text \<open>
  C6: a call of \<open>SelectClockSource\<close> that completes leaves a source other than the
  default one selected, and from then on every sequence of calls of
  \<open>SelectClockSource\<close> and \<open>mdate\<close>, with any configuration, leaves the state as it
  is and has \<open>mdate\<close> call that one source each time. With a source other than the
  default selected, \<open>SelectClockSource\<close> returns without a change. With the default
  source selected and already used, \<open>SelectClockSource\<close> fails its assertion.
\<close>

theorem clock_source_selected_once:
  "(SelectClockSource host str st = Inr st1 \<longrightarrow>
       mdate_selected st1 \<noteq> mdate_default
       \<and> clock_calls cs st1
            = Inr (replicate (length (filter is_Now cs)) (mdate_selected st1), st1))
   \<and> (mdate_selected st \<noteq> mdate_default \<longrightarrow>
       SelectClockSource host str st = Inr st \<and> mdate host st = Inr (mdate_selected st, st))
   \<and> (mdate_selected st = mdate_default \<and> clock_used_early st \<longrightarrow>
       SelectClockSource host str st = Inl AssertionFailed)"
  using select_installs [of host str st st1] clock_calls_fixed [of st1 cs]
    select_again [of st host str] mdate_fixed [of st host] select_after_use [of st host str]
  by blast

theorem clock_source_selected_once_witness:
  "SelectClockSource
      \<lparr>winstore_app = False, interrupt_query_found = True, tick_get_found = True,
       timecaps_ok = True, perf_frequency_ok = True\<rparr> (Some ''tick'')
      \<lparr>mdate_selected = mdate_default, clock_used_early = False\<rparr>
     = Inr \<lparr>mdate_selected = mdate_tick, clock_used_early = False\<rparr>
   \<and> clock_calls
        [Select \<lparr>winstore_app = False, interrupt_query_found = True, tick_get_found = True,
           timecaps_ok = True, perf_frequency_ok = True\<rparr> (Some ''wall''),
         Now \<lparr>winstore_app = False, interrupt_query_found = True, tick_get_found = True,
           timecaps_ok = True, perf_frequency_ok = True\<rparr>]
        \<lparr>mdate_selected = mdate_tick, clock_used_early = False\<rparr>
     = Inr ([mdate_tick], \<lparr>mdate_selected = mdate_tick, clock_used_early = False\<rparr>)
   \<and> SelectClockSource
      \<lparr>winstore_app = False, interrupt_query_found = True, tick_get_found = True,
       timecaps_ok = True, perf_frequency_ok = True\<rparr> (Some ''tick'')
      \<lparr>mdate_selected = mdate_default, clock_used_early = True\<rparr>
     = Inl AssertionFailed"
proof -
  let ?h = "\<lparr>winstore_app = False, interrupt_query_found = True, tick_get_found = True,
       timecaps_ok = True, perf_frequency_ok = True\<rparr>"
  have s: "SelectClockSource ?h (Some ''tick'') \<lparr>mdate_selected = mdate_default, clock_used_early = False\<rparr>
     = Inr \<lparr>mdate_selected = mdate_tick, clock_used_early = False\<rparr>"
    by (simp add: SelectClockSource_def)
  from clock_source_selected_once [of ?h "Some ''tick''"
      "\<lparr>mdate_selected = mdate_default, clock_used_early = False\<rparr>"
      "\<lparr>mdate_selected = mdate_tick, clock_used_early = False\<rparr>"
      "[Select ?h (Some ''wall''), Now ?h]"]
    clock_source_selected_once [of ?h "Some ''tick''"
      "\<lparr>mdate_selected = mdate_default, clock_used_early = True\<rparr>"
      "\<lparr>mdate_selected = mdate_tick, clock_used_early = False\<rparr>" "[]"]
    s
  show ?thesis by simp
qed

subsection \<open>Scheduling a timer\<close>

lemma filter_owned_handle:
  assumes d: "distinct (map fst q)"
    and o: "map fst (filter (\<lambda>e. parameter (snd e) = t) q) = [h]"
  shows "filter (\<lambda>e. parameter (snd e) = t') (filter (\<lambda>e. fst e \<noteq> h) q)
     = (if t' = t then [] else filter (\<lambda>e. parameter (snd e) = t') q)"
proof -
  obtain e where e: "filter (\<lambda>e. parameter (snd e) = t) q = [e]" and h: "fst e = h"
    using o by (cases "filter (\<lambda>e. parameter (snd e) = t) q") auto
  have "e \<in> set (filter (\<lambda>e. parameter (snd e) = t) q)" unfolding e by simp
  then have mem: "e \<in> set q" and pe: "parameter (snd e) = t" by simp_all
  have only: "x = e" if "x \<in> set q" "parameter (snd x) = t" for x
  proof -
    from that have "x \<in> set (filter (\<lambda>e. parameter (snd e) = t) q)" by simp
    with e show ?thesis by simp
  qed
  have uniq: "x = e" if "x \<in> set q" "fst x = h" for x
    using d that mem h by (metis distinct_map inj_onD)
  show ?thesis
  proof (cases "t' = t")
    case True
    have "\<not> (parameter (snd x) = t \<and> fst x \<noteq> h)" if "x \<in> set q" for x
      using only [OF that] h by auto
    then show ?thesis using True by (auto simp: filter_empty_conv)
  next
    case False
    have "filter (\<lambda>e. parameter (snd e) = t') (filter (\<lambda>e. fst e \<noteq> h) q)
        = filter (\<lambda>e. parameter (snd e) = t') q"
      unfolding filter_filter
    proof (rule filter_cong [OF refl])
      fix x assume "x \<in> set q"
      show "(fst x \<noteq> h \<and> parameter (snd x) = t') = (parameter (snd x) = t')"
        using uniq [OF \<open>x \<in> set q\<close>] pe False by auto
    qed
    with False show ?thesis by simp
  qed
qed

lemma disarm_inv:
  assumes inv: "world_inv w" and tm: "timers w t = Some tm"
    and ds: "disarm False t tm w = (w1, ev1)"
  shows "world_inv w1" and "owned w1 t = []" and "t' \<noteq> t \<Longrightarrow> owned w1 t' = owned w t'"
    and "timers w1 = (timers w)(t \<mapsto> tm\<lparr>handle := None\<rparr>)"
    and "queue w1 = filter (\<lambda>e. fst e \<notin> set (armed tm)) (queue w)"
    and "ev1 = map DeleteTimerQueueTimer (armed tm)"
proof -
  from inv have d: "distinct (map fst (queue w))" by (simp add: world_inv_def)
  from inv tm have o: "map fst (owned w t) = armed tm" by (simp add: world_inv_def)
  have all: "world_inv w1 \<and> owned w1 t = [] \<and> (t' \<noteq> t \<longrightarrow> owned w1 t' = owned w t')
      \<and> timers w1 = (timers w)(t \<mapsto> tm\<lparr>handle := None\<rparr>)
      \<and> queue w1 = filter (\<lambda>e. fst e \<notin> set (armed tm)) (queue w)
      \<and> ev1 = map DeleteTimerQueueTimer (armed tm)" for t'
  proof (cases "handle tm")
    case None
    with ds have w1: "w1 = w" and "ev1 = []" by (simp_all add: disarm_def)
    moreover from None o have "owned w t = []" by (simp add: armed_def)
    moreover from None tm have "(timers w)(t \<mapsto> tm\<lparr>handle := None\<rparr>) = timers w" by auto
    ultimately show ?thesis using inv None by (simp add: armed_def)
  next
    case (Some h)
    with ds have w1: "w1 = w\<lparr>timers := (timers w)(t \<mapsto> tm\<lparr>handle := None\<rparr>),
        queue := filter (\<lambda>e. fst e \<noteq> h) (queue w)\<rparr>" and ev: "ev1 = [DeleteTimerQueueTimer h]"
      by (simp_all add: disarm_def)
    from o Some have oh: "map fst (filter (\<lambda>e. parameter (snd e) = t) (queue w)) = [h]"
      by (simp add: owned_def armed_def)
    note f = filter_owned_handle [OF d oh]
    have ow: "owned w1 u = (if u = t then [] else owned w u)" for u
      unfolding owned_def w1 using f [of u] by simp
    have "distinct (map fst (queue w1))" using d unfolding w1 by (simp add: distinct_map_filter)
    moreover have "map fst (owned w1 u) = armed tm'" if "timers w1 u = Some tm'" for u tm'
    proof (cases "u = t")
      case True
      with that have "tm' = tm\<lparr>handle := None\<rparr>" unfolding w1 by simp
      with True ow show ?thesis by (simp add: armed_def)
    next
      case False
      with that have "timers w u = Some tm'" unfolding w1 by simp
      with inv have "map fst (owned w u) = armed tm'" by (simp add: world_inv_def)
      with False ow show ?thesis by simp
    qed
    ultimately have "world_inv w1" by (simp add: world_inv_def)
    then show ?thesis using ow ev Some unfolding w1 by (auto simp: armed_def)
  qed
  from all show "world_inv w1" by simp
  from all show "owned w1 t = []" by simp
  from all [of t'] show "t' \<noteq> t \<Longrightarrow> owned w1 t' = owned w t'" by simp
  from all show "timers w1 = (timers w)(t \<mapsto> tm\<lparr>handle := None\<rparr>)" by simp
  from all show "queue w1 = filter (\<lambda>e. fst e \<notin> set (armed tm)) (queue w)" by simp
  from all show "ev1 = map DeleteTimerQueueTimer (armed tm)" by simp
qed


lemma arm_inv:
  assumes inv: "world_inv w1" and tm: "timers w1 t = Some tm1" and e: "owned w1 t = []"
    and fr: "h \<notin> fst ` set (queue w1)"
    and w': "w' = w1\<lparr>timers := (timers w1)(t \<mapsto> tm\<lparr>handle := Some h\<rparr>),
                    queue := queue w1 @ [(h, \<lparr>parameter = t, due_time = d, period = p\<rparr>)]\<rparr>"
  shows "world_inv w'" and "owned w' t = [(h, \<lparr>parameter = t, due_time = d, period = p\<rparr>)]"
    and "t' \<noteq> t \<Longrightarrow> owned w' t' = owned w1 t'"
proof -
  show o: "owned w' t = [(h, \<lparr>parameter = t, due_time = d, period = p\<rparr>)]"
    using e unfolding w' owned_def by simp
  show o': "owned w' t' = owned w1 t'" if "t' \<noteq> t" for t'
    using that unfolding w' owned_def by simp
  have "distinct (map fst (queue w'))"
    using inv fr unfolding w' world_inv_def by simp
  moreover have "map fst (owned w' u) = armed tm'" if "timers w' u = Some tm'" for u tm'
  proof (cases "u = t")
    case True
    with that have "tm' = tm\<lparr>handle := Some h\<rparr>" unfolding w' by simp
    with True o show ?thesis by (simp add: armed_def)
  next
    case False
    with that have "timers w1 u = Some tm'" unfolding w' by simp
    with inv have "map fst (owned w1 u) = armed tm'" by (simp add: world_inv_def)
    with o' [OF False] show ?thesis by simp
  qed
  ultimately show "world_inv w'" by (simp add: world_inv_def)
qed

text \<open>
  Where the sum stays in the range of \<open>int64_t\<close>, the delay of a relative value that
  is not negative is that value in milliseconds, rounded up, in 32 bits.
\<close>

lemma sint_add_999:
  fixes v :: "64 word"
  assumes "0 \<le> sint v" and "sint v < 2 ^ 63 - 999"
  shows "sint (v + 999) = sint v + 999"
proof -
  have n: "sint (999 :: 64 word) = 999" by simp
  have "sint (v + 999) = signed_take_bit (LENGTH(64) - 1) (sint v + sint (999 :: 64 word))"
    by (rule sint_word_ariths)
  also have "\<dots> = signed_take_bit 63 (sint v + 999)" unfolding n by simp
  also have "\<dots> = sint v + 999"
    by (rule signed_take_bit_int_eq_self) (use assms in auto)
  finally show ?thesis .
qed


lemma sdiv_nonneg:
  fixes a :: int
  assumes "0 \<le> a"
  shows "a sdiv 1000 = a div 1000"
proof (cases "a = 0")
  case True then show ?thesis by (simp add: signed_divide_int_def)
next
  case False
  with assms have "0 < a" by simp
  then show ?thesis by (simp add: signed_divide_int_def)
qed

lemma delay_ms_in_range:
  assumes "0 \<le> sint val" and "sint val < 2 ^ 63 - 999"
  shows "delay_ms False now val = word_of_int ((sint val + 999) div 1000)"
proof -
  have a: "sint (val + 999) = sint val + 999" using assms by (rule sint_add_999)
  have k: "sint (1000 :: 64 word) = 1000" by simp
  have b: "(sint val + 999) sdiv 1000 = (sint val + 999) div 1000"
    using assms(1) by (intro sdiv_nonneg) simp
  have "delay_ms False now val = ucast (word_of_int ((sint val + 999) div 1000) :: 64 word)"
    unfolding delay_ms_def to_DWORD_def mtime_div_def if_False a k b ..
  also have "\<dots> = word_of_int ((sint val + 999) div 1000)"
    by (rule bit_word_eqI) (auto simp add: bit_simps)
  finally show ?thesis .
qed

text \<open>
  The delay at some values: rounded up to the millisecond, zero for a deadline that has
  passed, and wrapped around where the sum leaves the range of \<open>int64_t\<close>.
\<close>

lemma delay_ms_values:
  "delay_ms False 0 50000 = 50"
  "delay_ms False 0 200001 = 201"
  "delay_ms True 1000000 400000 = 0"
  "delay_ms True 1000000 1200000 = 200"
  "delay_ms False 0 0x7FFFFFFFFFFFFFFF = 1511828490"
  by (simp_all add: delay_ms_def to_DWORD_def mtime_div_def signed_divide_int_def word_sless_alt)

text \<open>
  C7: in a state where the timer queue and the timer records agree, and with the handle
  of a new native timer different from those live when it is created (it may be the one
  just freed), \<open>vlc_timer_schedule\<close> first deletes the native timer of the record, if
  it has one. Called with value 0 it does nothing else: the record has no native timer
  afterwards. Called with another value it then creates one native timer (or aborts when
  the creation fails), and the record has exactly that one, with the new delay and
  period. Either way the queue and the records agree again, so that no record ever has
  two native timers, and the native timers of the other records are untouched.
\<close>

theorem timer_schedule_single_native_timer:
  assumes inv: "world_inv w" and tm: "timers w t = Some tm" and fr: "fresh created tm w"
  shows "(val = 0 \<longrightarrow>
            (\<exists>w'. vlc_timer_schedule False now created t absolute val interval w
                     = Inr (w', map DeleteTimerQueueTimer (armed tm))
                 \<and> world_inv w' \<and> owned w' t = []
                 \<and> timers w' t = Some (tm\<lparr>handle := None\<rparr>)
                 \<and> (\<forall>t'. t' \<noteq> t \<longrightarrow> owned w' t' = owned w t')))
       \<and> (val \<noteq> 0 \<longrightarrow>
            (created = None \<longrightarrow>
               vlc_timer_schedule False now created t absolute val interval w = Inl Aborted)
            \<and> (\<forall>h. created = Some h \<longrightarrow>
                 (\<exists>w'. vlc_timer_schedule False now created t absolute val interval w
                     = Inr (w', map DeleteTimerQueueTimer (armed tm)
                            @ [CreateTimerQueueTimer h t (delay_ms absolute now val)
                                 (delay_ms False 0 interval)])
                   \<and> world_inv w'
                   \<and> owned w' t = [(h, \<lparr>parameter = t, due_time = delay_ms absolute now val,
                                        period = delay_ms False 0 interval\<rparr>)]
                   \<and> timers w' t = Some (tm\<lparr>handle := Some h\<rparr>)
                   \<and> (\<forall>t'. t' \<noteq> t \<longrightarrow> owned w' t' = owned w t'))))"
proof -
  obtain w1 ev1 where ds: "disarm False t tm w = (w1, ev1)" by (cases "disarm False t tm w")
  note d = disarm_inv [OF inv tm ds]
  have tm1: "timers w1 t = Some (tm\<lparr>handle := None\<rparr>)" using d(4) by simp
  have zero: ?thesis if "val = 0"
    using that tm ds d(1,2,3,6) tm1 by (simp add: vlc_timer_schedule_def)
  have nonzero: ?thesis if nz: "val \<noteq> 0"
  proof (cases created)
    case None
    with nz tm ds show ?thesis by (simp add: vlc_timer_schedule_def Let_def)
  next
    case (Some h)
    let ?d = "delay_ms absolute now val" and ?p = "delay_ms False 0 interval"
    let ?w' = "w1\<lparr>timers := (timers w1)(t \<mapsto> tm\<lparr>handle := Some h\<rparr>),
                  queue := queue w1 @ [(h, \<lparr>parameter = t, due_time = ?d, period = ?p\<rparr>)]\<rparr>"
    from fr Some have fr1: "h \<notin> fst ` set (queue w1)" unfolding d(5) by (simp add: fresh_def)
    note a = arm_inv [where tm = tm and d = ?d and p = ?p, OF d(1) tm1 d(2) fr1 refl]
    have run: "vlc_timer_schedule False now created t absolute val interval w
        = Inr (?w', map DeleteTimerQueueTimer (armed tm) @ [CreateTimerQueueTimer h t ?d ?p])"
      using nz tm ds Some d(6) by (simp add: vlc_timer_schedule_def Let_def delay_ms_def)
    have others: "owned ?w' t' = owned w t'" if "t' \<noteq> t" for t'
      using a(3) [OF that] d(3) [OF that] by simp
    have "timers ?w' t = Some (tm\<lparr>handle := Some h\<rparr>)" by simp
    with run a(1,2) others nz Some show ?thesis by simp
  qed
  from zero nonzero show ?thesis by blast
qed

theorem timer_schedule_single_native_timer_witness:
  "\<exists>w'. vlc_timer_schedule False 0 (Some 100) 7 False 200000 0
        \<lparr>timers = [7 \<mapsto> \<lparr>handle = Some 100, func = 1, tm_data = 2\<rparr>],
         queue = [(100, \<lparr>parameter = 7, due_time = 50, period = 0\<rparr>)]\<rparr>
      = Inr (w', [DeleteTimerQueueTimer 100, CreateTimerQueueTimer 100 7 200 0])
    \<and> owned w' 7 = [(100, \<lparr>parameter = 7, due_time = 200, period = 0\<rparr>)]"
proof -
  let ?w = "\<lparr>timers = [7 \<mapsto> \<lparr>handle = Some 100, func = 1, tm_data = 2\<rparr>],
         queue = [(100, \<lparr>parameter = 7, due_time = 50, period = 0\<rparr>)]\<rparr>"
  have inv: "world_inv ?w" by (simp add: world_inv_def owned_def armed_def)
  have tm: "timers ?w 7 = Some \<lparr>handle = Some 100, func = 1, tm_data = 2\<rparr>" by simp
  have fr: "fresh (Some 100) \<lparr>handle = Some 100, func = 1, tm_data = 2\<rparr> ?w"
    by (simp add: fresh_def armed_def)
  have d: "delay_ms False 0 200000 = 200" "delay_ms False 0 0 = 0"
    by (simp_all add: delay_ms_def to_DWORD_def mtime_div_def signed_divide_int_def)
  from timer_schedule_single_native_timer [OF inv tm fr, of 200000 0 False 0]
  show ?thesis by (auto simp add: armed_def d)
qed

end
